theory Spec2Isabelle
  imports Complex_Main "HOL-Library.AList"
begin

section \<open>Strings\<close>

text \<open>
  A JavaScript string is a sequence of UTF-16 code units.  A code unit is modelled
  by its number, so that the Unicode white space removed by \<^verbatim>\<open>trim\<close> and the line
  terminators excluded by the regular expression \<^verbatim>\<open>.\<close> are in the model.  The
  function \<open>str\<close> turns an ASCII literal of the source into such a string.
\<close>

type_synonym jsstring = "nat list"

definition str :: "string \<Rightarrow> jsstring" where
  "str s = map of_char s"

text \<open>The character class \<^verbatim>\<open>[a-zA-Z0-9_-]\<close> of \<^verbatim>\<open>URL_PATTERNS\<close>.\<close>

definition isIdChar :: "nat \<Rightarrow> bool" where
  "isIdChar c \<longleftrightarrow>
     (97 \<le> c \<and> c \<le> 122) \<or> (65 \<le> c \<and> c \<le> 90) \<or> (48 \<le> c \<and> c \<le> 57) \<or> c = 95 \<or> c = 45"

text \<open>
  ECMAScript line terminators (LF, CR, LS, PS): the characters that \<^verbatim>\<open>.\<close> does not
  match in a regular expression without the \<^verbatim>\<open>s\<close> flag.
\<close>

definition isLineTerminator :: "nat \<Rightarrow> bool" where
  "isLineTerminator c \<longleftrightarrow> c = 10 \<or> c = 13 \<or> c = 8232 \<or> c = 8233"

text \<open>
  What \<^verbatim>\<open>String.prototype.trim\<close> strips: ECMAScript WhiteSpace (TAB, VT, FF, SP,
  NBSP, ZWNBSP and the Unicode category Zs) and the line terminators.
\<close>

definition isWhiteSpace :: "nat \<Rightarrow> bool" where
  "isWhiteSpace c \<longleftrightarrow>
     c = 9 \<or> c = 11 \<or> c = 12 \<or> c = 32 \<or> c = 160 \<or> c = 5760 \<or> (8192 \<le> c \<and> c \<le> 8202) \<or>
     c = 8239 \<or> c = 8287 \<or> c = 12288 \<or> c = 65279 \<or> isLineTerminator c"

definition trim :: "jsstring \<Rightarrow> jsstring" where
  "trim s = rev (dropWhile isWhiteSpace (rev (dropWhile isWhiteSpace s)))"

text \<open>Decimal rendering of a non-negative integer, as a template literal does it.\<close>

fun digits :: "nat \<Rightarrow> jsstring" where
  "digits n = (if n < 10 then [48 + n] else digits (n div 10) @ [48 + n mod 10])"

declare digits.simps [simp del]

section \<open>URL parser (\<^verbatim>\<open>parseGoogleDriveUrl\<close>, \<^verbatim>\<open>URL_PATTERNS\<close>)\<close>

subsection \<open>Regular expressions\<close>

text \<open>
  The five patterns use a literal prefix, the greedy \<^verbatim>\<open>.*\<close>, and the capture group
  \<^verbatim>\<open>([a-zA-Z0-9_-]+)\<close> at the end of the pattern.  Each construct is a backtracking
  matcher in continuation style: it consumes a prefix of the input and hands the rest
  to the continuation; \<open>None\<close> is a failed match.

  \<^item> \<open>lit l k\<close>: the characters of \<open>l\<close>, then \<open>k\<close>.
  \<^item> \<open>dotstar k\<close>: \<^verbatim>\<open>.*\<close> then \<open>k\<close>: greedy, so the longer match is tried first and
    the matcher backtracks one character at a time; \<^verbatim>\<open>.\<close> stops at a line terminator.
  \<^item> \<open>idgroup\<close>: \<^verbatim>\<open>([a-zA-Z0-9_-]+)\<close> as the last construct: the longest run of
    identifier characters, at least one; the result is the captured text
    (\<^verbatim>\<open>match[1]\<close>).
  \<^item> \<open>search m\<close>: an unanchored pattern is tried at every start position, leftmost
    first (\<^verbatim>\<open>String.prototype.match\<close> without the \<^verbatim>\<open>g\<close> flag).
\<close>

fun lit :: "jsstring \<Rightarrow> (jsstring \<Rightarrow> 'a option) \<Rightarrow> jsstring \<Rightarrow> 'a option" where
  "lit [] k s = k s"
| "lit (c # cs) k [] = None"
| "lit (c # cs) k (d # ds) = (if c = d then lit cs k ds else None)"

fun dotstar :: "(jsstring \<Rightarrow> 'a option) \<Rightarrow> jsstring \<Rightarrow> 'a option" where
  "dotstar k [] = k []"
| "dotstar k (c # cs) =
     (if isLineTerminator c then k (c # cs)
      else (case dotstar k cs of Some r \<Rightarrow> Some r | None \<Rightarrow> k (c # cs)))"

definition idgroup :: "jsstring \<Rightarrow> jsstring option" where
  "idgroup s = (case takeWhile isIdChar s of [] \<Rightarrow> None | c # cs \<Rightarrow> Some (c # cs))"

fun search :: "(jsstring \<Rightarrow> 'a option) \<Rightarrow> jsstring \<Rightarrow> 'a option" where
  "search m [] = m []"
| "search m (c # cs) = (case m (c # cs) of Some r \<Rightarrow> Some r | None \<Rightarrow> search m cs)"

text \<open>\<^verbatim>\<open>DRIVE_FILE: /drive\.google\.com\/file\/d\/([a-zA-Z0-9_-]+)/\<close>\<close>

definition DRIVE_FILE :: "jsstring \<Rightarrow> jsstring option" where
  "DRIVE_FILE = search (lit (str ''drive.google.com/file/d/'') idgroup)"

text \<open>\<^verbatim>\<open>DRIVE_FILE_OPEN: /drive\.google\.com\/open\?id=([a-zA-Z0-9_-]+)/\<close>\<close>

definition DRIVE_FILE_OPEN :: "jsstring \<Rightarrow> jsstring option" where
  "DRIVE_FILE_OPEN = search (lit (str ''drive.google.com/open?id='') idgroup)"

text \<open>\<^verbatim>\<open>DRIVE_FILE_UC: /drive\.google\.com\/uc\?.*id=([a-zA-Z0-9_-]+)/\<close>\<close>

definition DRIVE_FILE_UC :: "jsstring \<Rightarrow> jsstring option" where
  "DRIVE_FILE_UC = search (lit (str ''drive.google.com/uc?'') (dotstar (lit (str ''id='') idgroup)))"

text \<open>\<^verbatim>\<open>DRIVE_FOLDER: /drive\.google\.com\/drive\/folders\/([a-zA-Z0-9_-]+)/\<close>\<close>

definition DRIVE_FOLDER :: "jsstring \<Rightarrow> jsstring option" where
  "DRIVE_FOLDER = search (lit (str ''drive.google.com/drive/folders/'') idgroup)"

text \<open>
  \<^verbatim>\<open>DRIVE_ID_ONLY: /^[a-zA-Z0-9_-]{25,}$/\<close>, used through \<^verbatim>\<open>test\<close>: without the
  \<^verbatim>\<open>m\<close> flag the anchors are the two ends of the input.
\<close>

definition DRIVE_ID_ONLY :: "jsstring \<Rightarrow> bool" where
  "DRIVE_ID_ONLY s \<longleftrightarrow> 25 \<le> length s \<and> list_all isIdChar s"

subsection \<open>The parser\<close>

datatype DriveResourceType = File | Folder

text \<open>\<^verbatim>\<open>ParsedDriveUrl\<close>: the fields \<^verbatim>\<open>id\<close> and \<^verbatim>\<open>type\<close>.\<close>

record ParsedDriveUrl =
  parsed_id :: jsstring
  parsed_type :: DriveResourceType

definition patterns :: "((jsstring \<Rightarrow> jsstring option) \<times> DriveResourceType) list" where
  "patterns =
     [(DRIVE_FILE, File), (DRIVE_FILE_OPEN, File), (DRIVE_FILE_UC, File), (DRIVE_FOLDER, Folder)]"

text \<open>
  The loop \<^verbatim>\<open>for (const { regex, type } of patterns)\<close>, which returns at the first
  pattern with \<^verbatim>\<open>match && match[1]\<close>; an empty capture is falsy.
\<close>

fun try_patterns ::
  "((jsstring \<Rightarrow> jsstring option) \<times> DriveResourceType) list \<Rightarrow> jsstring \<Rightarrow> ParsedDriveUrl option"
where
  "try_patterns [] t = None"
| "try_patterns ((regex, ty) # ps) t =
     (case regex t of
        Some m1 \<Rightarrow>
          if m1 \<noteq> [] then Some \<lparr>parsed_id = m1, parsed_type = ty\<rparr> else try_patterns ps t
      | None \<Rightarrow> try_patterns ps t)"

text \<open>
  \<^verbatim>\<open>parseGoogleDriveUrl\<close>; \<open>None\<close> is \<^verbatim>\<open>null\<close>.  The guard \<^verbatim>\<open>!url\<close> is the test for
  the empty string (the argument is a string by its type).
\<close>

definition parseGoogleDriveUrl :: "jsstring \<Rightarrow> ParsedDriveUrl option" where
  "parseGoogleDriveUrl url =
     (if url = [] then None
      else
        let trimmedUrl = trim url in
        case try_patterns patterns trimmedUrl of
          Some r \<Rightarrow> Some r
        | None \<Rightarrow>
            if DRIVE_ID_ONLY trimmedUrl
            then Some \<lparr>parsed_id = trimmedUrl, parsed_type = File\<rparr>
            else None)"

section \<open>Job registry (\<^verbatim>\<open>JobService\<close>)\<close>

datatype CopyItemStatus = ItemPending | ItemProcessing | ItemSuccess | ItemError

datatype JobStatus = JobProcessing | JobComplete | JobError

text \<open>
  \<^verbatim>\<open>CopyItem\<close>.  The optional fields \<^verbatim>\<open>result\<close> and \<^verbatim>\<open>error\<close> are never assigned
  by the code and are left out.
\<close>

record CopyItem =
  item_index :: nat
  item_url :: jsstring
  item_status :: CopyItemStatus
  item_progress :: int
  item_message :: jsstring

text \<open>
  \<^verbatim>\<open>CopyJob\<close>.  \<^verbatim>\<open>createdAt\<close> is stored as an ISO string with millisecond precision
  and read back with \<^verbatim>\<open>new Date(job.createdAt).getTime()\<close>; the model keeps the
  milliseconds.
\<close>

record CopyJob =
  job_id :: jsstring
  job_status :: JobStatus
  totalItems :: nat
  completedItems :: nat
  items :: "CopyItem list"
  job_targetFolderId :: jsstring
  createdAt :: int

text \<open>
  \<^verbatim>\<open>const jobs = new Map<string, CopyJob>()\<close>: the entries in insertion order.
  \<^verbatim>\<open>jobs.get\<close> is \<open>map_of\<close>, \<^verbatim>\<open>jobs.set\<close> is \<open>AList.update\<close> (an existing key keeps
  its place, a new one goes last), \<^verbatim>\<open>jobs.delete\<close> is \<open>AList.delete\<close>.
\<close>

type_synonym registry = "(jsstring \<times> CopyJob) list"

text \<open>The \<^verbatim>\<open>updates\<close> object that \<^verbatim>\<open>processJob\<close> passes: status, progress, message.\<close>

record ItemUpdate =
  upd_status :: CopyItemStatus
  upd_progress :: int
  upd_message :: jsstring

definition isTerminal :: "CopyItemStatus \<Rightarrow> bool" where
  "isTerminal st \<longleftrightarrow> st = ItemSuccess \<or> st = ItemError"

definition getJob :: "registry \<Rightarrow> jsstring \<Rightarrow> CopyJob option" where
  "getJob jobs jobId = map_of jobs jobId"

definition deleteJob :: "jsstring \<Rightarrow> registry \<Rightarrow> bool \<times> registry" where
  "deleteJob jobId jobs = (map_of jobs jobId \<noteq> None, AList.delete jobId jobs)"

text \<open>
  \<^verbatim>\<open>updateJobItem\<close>.  The guard \<^verbatim>\<open>!job || !job.items[itemIndex]\<close> returns when the job
  is not in the map or the index has no item.
\<close>

definition updateJobItem :: "jsstring \<Rightarrow> nat \<Rightarrow> ItemUpdate \<Rightarrow> registry \<Rightarrow> registry" where
  "updateJobItem jobId itemIndex updates jobs =
     (case map_of jobs jobId of
        None \<Rightarrow> jobs
      | Some job \<Rightarrow>
          if \<not> itemIndex < length (items job) then jobs
          else
            let item = (items job ! itemIndex)
                  \<lparr>item_status := upd_status updates,
                   item_progress := upd_progress updates,
                   item_message := upd_message updates\<rparr>;
                job1 = job\<lparr>items := (items job)[itemIndex := item]\<rparr>;
                job2 =
                  (if upd_status updates = ItemSuccess \<or> upd_status updates = ItemError
                   then
                     let job3 = job1
                           \<lparr>completedItems :=
                              length (filter (\<lambda>item. item_status item = ItemSuccess \<or>
                                                      item_status item = ItemError) (items job1))\<rparr>
                     in if completedItems job3 = totalItems job3
                        then job3\<lparr>job_status := JobComplete\<rparr>
                        else job3
                   else job1)
            in AList.update jobId job2 jobs)"

text \<open>
  \<^verbatim>\<open>clearOldJobs\<close>: the loop over \<^verbatim>\<open>jobs.entries()\<close>, deleting from the map while it
  iterates; \<open>now\<close> is \<^verbatim>\<open>Date.now()\<close>.
\<close>

fun clearOldJobs_loop ::
  "int \<Rightarrow> int \<Rightarrow> (jsstring \<times> CopyJob) list \<Rightarrow> registry \<Rightarrow> nat \<Rightarrow> nat \<times> registry"
where
  "clearOldJobs_loop now maxAgeMs [] jobs cleared = (cleared, jobs)"
| "clearOldJobs_loop now maxAgeMs ((jobId, job) # entries) jobs cleared =
     (let jobAge = now - createdAt job in
      if job_status job = JobComplete \<and> jobAge > maxAgeMs
      then clearOldJobs_loop now maxAgeMs entries (AList.delete jobId jobs) (cleared + 1)
      else clearOldJobs_loop now maxAgeMs entries jobs cleared)"

definition clearOldJobs :: "int \<Rightarrow> int \<Rightarrow> registry \<Rightarrow> nat \<times> registry" where
  "clearOldJobs now maxAgeMs jobs = clearOldJobs_loop now maxAgeMs jobs jobs 0"

section \<open>Drive service (\<^verbatim>\<open>GoogleDriveService\<close>)\<close>

text \<open>
  The Google Drive API is outside the repository.  A remote call either rejects with
  an error (which is not an \<^verbatim>\<open>AppError\<close>) or resolves with a response.
\<close>

datatype 'a response = Rejects jsstring | Resolves 'a

text \<open>
  What the code throws and catches: an \<^verbatim>\<open>AppError\<close> with its message, another
  \<^verbatim>\<open>Error\<close> with its message, or a value that is not an \<^verbatim>\<open>Error\<close>.
\<close>

datatype thrown = AppError jsstring | OtherError jsstring | NotAnError

text \<open>\<^verbatim>\<open>DriveFileMetadata\<close>; \<^verbatim>\<open>size\<close> and \<^verbatim>\<open>parents\<close> are never read.\<close>

record DriveFileMetadata =
  meta_id :: jsstring
  meta_name :: jsstring
  meta_mimeType :: jsstring

text \<open>The fields \<^verbatim>\<open>id, name, size\<close> of the response to \<^verbatim>\<open>files.copy\<close>.\<close>

record CopyResponse =
  copied_id :: jsstring
  copied_name :: "jsstring option"
  copied_size :: "jsstring option"

text \<open>
  The answers of the API for one source resource and, for a folder, for everything
  below it: to \<^verbatim>\<open>files.get\<close> on it, to \<^verbatim>\<open>files.copy\<close> of it, to \<^verbatim>\<open>files.create\<close>
  of the folder that copies it (\<^verbatim>\<open>data.id\<close> may be missing), to
  \<^verbatim>\<open>permissions.create\<close> on the new file or folder, and to \<^verbatim>\<open>files.list\<close> of its
  children, each child with its own answers.  The answers form a finite tree: the
  folder hierarchy that one copy walks is taken to be a tree.
\<close>

datatype resource = Resource
  (files_get: "DriveFileMetadata response")
  (files_copy: "CopyResponse response")
  (files_create: "jsstring option response")
  (permissions_create: "unit response")
  (files_list: "(DriveFileMetadata \<times> resource) list response")

text \<open>The changes that resolved calls make on the Drive.\<close>

datatype effect =
    FolderCreated jsstring "jsstring option" jsstring
  | FileCopied jsstring jsstring jsstring jsstring
  | PermissionCreated jsstring jsstring jsstring

text \<open>
  What the service needs from its surroundings: the outcome of \<^verbatim>\<open>initialize\<close>
  (\<open>Some m\<close>: it throws \<^verbatim>\<open>AppError\<close> with message \<open>m\<close>) and the value of
  \<^verbatim>\<open>Math.floor((current / total) * 100)\<close> in IEEE double arithmetic.
\<close>

record env =
  initialize_error :: "jsstring option"
  floor_percent :: "nat \<Rightarrow> nat \<Rightarrow> int"

definition MIME_TYPES_FOLDER :: jsstring where
  "MIME_TYPES_FOLDER = str ''application/vnd.google-apps.folder''"

text \<open>\<^verbatim>\<open>a || b\<close> on an optional string: \<^verbatim>\<open>undefined\<close> and the empty string are falsy.\<close>

definition or_else :: "jsstring option \<Rightarrow> jsstring \<Rightarrow> jsstring" where
  "or_else a b = (case a of None \<Rightarrow> b | Some x \<Rightarrow> if x = [] then b else x)"

text \<open>
  \<^verbatim>\<open>createFolder\<close>, given the answers to its two calls.  Its handler rethrows an
  \<^verbatim>\<open>AppError\<close> and replaces every other error.
\<close>

definition createFolder ::
  "env \<Rightarrow> jsstring option response \<Rightarrow> unit response \<Rightarrow> jsstring \<Rightarrow> jsstring option \<Rightarrow>
   effect list \<times> (thrown + jsstring)"
where
  "createFolder e create_answer permission_answer name parentId =
     (case initialize_error e of
        Some m \<Rightarrow> ([], Inl (AppError m))
      | None \<Rightarrow>
     (case create_answer of
        Rejects m \<Rightarrow> ([], Inl (AppError (str ''Failed to create folder'')))
      | Resolves data_id \<Rightarrow>
          let folderId = or_else data_id [] in
          if folderId = []
          then ([], Inl (AppError (str ''Failed to create folder: No ID returned'')))
          else
            (case permission_answer of
               Rejects m \<Rightarrow>
                 ([FolderCreated name parentId folderId],
                  Inl (AppError (str ''Failed to create folder'')))
             | Resolves u \<Rightarrow>
                 ([FolderCreated name parentId folderId,
                   PermissionCreated folderId (str ''reader'') (str ''anyone'')],
                  Inr folderId))))"

definition getFileMetadata :: "env \<Rightarrow> resource \<Rightarrow> jsstring \<Rightarrow> thrown + DriveFileMetadata" where
  "getFileMetadata e r fileId =
     (case initialize_error e of
        Some m \<Rightarrow> Inl (AppError (str ''Failed to get file metadata''))
      | None \<Rightarrow>
     (case files_get r of
        Rejects m \<Rightarrow> Inl (AppError (str ''Failed to get file metadata''))
      | Resolves d \<Rightarrow> Inr d))"

record CopyFileResult =
  file_id :: jsstring
  file_name :: jsstring
  file_size :: jsstring

text \<open>
  \<^verbatim>\<open>copyFile\<close>.  The result is the changes made on the Drive, the calls of
  \<^verbatim>\<open>onProgress\<close> in order (none when the callback is \<^verbatim>\<open>undefined\<close>), and the value
  returned or the error thrown.
\<close>

definition progress_call :: "('a \<Rightarrow> 'ev) option \<Rightarrow> 'a \<Rightarrow> 'ev list" where
  "progress_call onProgress x = (case onProgress of None \<Rightarrow> [] | Some f \<Rightarrow> [f x])"

definition copyFile ::
  "env \<Rightarrow> resource \<Rightarrow> jsstring \<Rightarrow> jsstring \<Rightarrow> jsstring option \<Rightarrow> (int \<Rightarrow> 'ev) option \<Rightarrow>
   effect list \<times> 'ev list \<times> (thrown + CopyFileResult)"
where
  "copyFile e r sourceFileId targetFolderId newName onProgress =
     (case initialize_error e of
        Some m \<Rightarrow> ([], [], Inl (AppError (str ''Failed to copy file'')))
      | None \<Rightarrow>
     (case getFileMetadata e r sourceFileId of
        Inl err \<Rightarrow> ([], [], Inl (AppError (str ''Failed to copy file'')))
      | Inr sourceFile \<Rightarrow>
          let fileName = or_else newName (meta_name sourceFile);
              p10 = progress_call onProgress 10
          in
          (case files_copy r of
             Rejects m \<Rightarrow> ([], p10, Inl (AppError (str ''Failed to copy file'')))
           | Resolves data \<Rightarrow>
               let copied = FileCopied sourceFileId fileName targetFolderId (copied_id data);
                   p90 = progress_call onProgress 90
               in
               (case permissions_create r of
                  Rejects m \<Rightarrow> ([copied], p10 @ p90, Inl (AppError (str ''Failed to copy file'')))
                | Resolves u \<Rightarrow>
                    ([copied, PermissionCreated (copied_id data) (str ''reader'') (str ''anyone'')],
                     p10 @ p90 @ progress_call onProgress 100,
                     Inr \<lparr>file_id = copied_id data,
                          file_name = or_else (copied_name data) fileName,
                          file_size = or_else (copied_size data) (str ''0'')\<rparr>)))))"

definition listFilesInFolder ::
  "env \<Rightarrow> resource \<Rightarrow> jsstring \<Rightarrow> thrown + (DriveFileMetadata \<times> resource) list"
where
  "listFilesInFolder e r folderId =
     (case initialize_error e of
        Some m \<Rightarrow> Inl (AppError (str ''Failed to list files in folder''))
      | None \<Rightarrow>
     (case files_list r of
        Rejects m \<Rightarrow> Inl (AppError (str ''Failed to list files in folder''))
      | Resolves files \<Rightarrow> Inr files))"

record CopyFolderResult =
  folder_id :: jsstring
  folder_name :: jsstring
  filesCopied :: nat

text \<open>
  \<^verbatim>\<open>copyFolder\<close> and its loop \<^verbatim>\<open>for (let i = 0; i < files.length; i++)\<close>.  The loop
  function takes \<^verbatim>\<open>files.length\<close> and the files from position \<open>i\<close> on; a subfolder is copied without a
  progress callback, a file without a new name and without a callback.  An error
  thrown anywhere in the body is replaced by the handler of the enclosing
  \<^verbatim>\<open>copyFolder\<close>.
\<close>

function (sequential) copyFolder ::
  "env \<Rightarrow> resource \<Rightarrow> jsstring \<Rightarrow> jsstring \<Rightarrow> jsstring option \<Rightarrow>
   (nat \<times> nat \<times> jsstring \<Rightarrow> 'ev) option \<Rightarrow> effect list \<times> 'ev list \<times> (thrown + CopyFolderResult)"
and copyFolder_loop ::
  "env \<Rightarrow> jsstring \<Rightarrow> (nat \<times> nat \<times> jsstring \<Rightarrow> 'ev) option \<Rightarrow> nat \<Rightarrow> nat \<Rightarrow>
   (DriveFileMetadata \<times> resource) list \<Rightarrow> nat \<Rightarrow> effect list \<times> 'ev list \<times> (thrown + nat)"
where
  "copyFolder e r sourceFolderId targetParentId newName onProgress =
     (case initialize_error e of
        Some m \<Rightarrow> ([], [], Inl (AppError (str ''Failed to copy folder'')))
      | None \<Rightarrow>
     (case getFileMetadata e r sourceFolderId of
        Inl err \<Rightarrow> ([], [], Inl (AppError (str ''Failed to copy folder'')))
      | Inr sourceFolder \<Rightarrow>
          let folderName = or_else newName (meta_name sourceFolder) in
          (case createFolder e (files_create r) (permissions_create r) folderName
                  (Some targetParentId) of
             (fx1, Inl err) \<Rightarrow> (fx1, [], Inl (AppError (str ''Failed to copy folder'')))
           | (fx1, Inr newFolderId) \<Rightarrow>
               (case listFilesInFolder e r sourceFolderId of
                  Inl err \<Rightarrow> (fx1, [], Inl (AppError (str ''Failed to copy folder'')))
                | Inr files \<Rightarrow>
                    (case copyFolder_loop e newFolderId onProgress (length files) 0 files 0 of
                       (fx2, evs, Inl err) \<Rightarrow>
                         (fx1 @ fx2, evs, Inl (AppError (str ''Failed to copy folder'')))
                     | (fx2, evs, Inr n) \<Rightarrow>
                         (fx1 @ fx2, evs,
                          Inr \<lparr>folder_id = newFolderId, folder_name = folderName,
                               filesCopied = n\<rparr>))))))"
| "copyFolder_loop e newFolderId onProgress len i [] n = ([], [], Inr n)"
| "copyFolder_loop e newFolderId onProgress len i ((file, r) # rest) n =
     (let ev = progress_call onProgress (i + 1, len, meta_name file) in
      if meta_mimeType file = MIME_TYPES_FOLDER
      then
        (case copyFolder e r (meta_id file) newFolderId (Some (meta_name file)) None of
           (fx, evs0, Inl err) \<Rightarrow> (fx, ev, Inl err)
         | (fx, evs0, Inr res) \<Rightarrow>
             (case copyFolder_loop e newFolderId onProgress len (i + 1) rest (n + 1) of
                (fx', evs, out) \<Rightarrow> (fx @ fx', ev @ evs, out)))
      else
        (case copyFile e r (meta_id file) newFolderId None None of
           (fx, evs0, Inl err) \<Rightarrow> (fx, ev, Inl err)
         | (fx, (evs0 :: 'ev list), Inr res) \<Rightarrow>
             (case copyFolder_loop e newFolderId onProgress len (i + 1) rest (n + 1) of
                (fx', evs, out) \<Rightarrow> (fx @ fx', ev @ evs, out))))"
  by pat_completeness auto

termination
  apply (relation "measure (\<lambda>x. case x of
          Inl (e, r, a) \<Rightarrow> 2 * size r
        | Inr (e, nf, op, len, i, files, n) \<Rightarrow> 2 * size_list (\<lambda>p. size (snd p)) files + 1)")
      apply simp_all
  subgoal premises prems for e r sourceFolderId targetParentId newName b x xa y ba bb
  proof -
    from prems have l: "files_list r = Resolves bb"
      by (simp add: listFilesInFolder_def split: option.splits response.splits)
    have "size_list (\<lambda>p. size (snd p)) bb \<le> size_list (size_prod (\<lambda>x. 0) size) bb"
      by (rule size_list_pointwise) (simp add: size_prod_simp)
    also have "\<dots> < size r"
      using l by (cases r) simp
    finally show ?thesis by simp
  qed
  done


declare copyFolder.simps [simp del]

text \<open>
  For the statements about permissions: the id of the file or folder that a change
  creates, and the property that every file or folder created in a list of changes
  gets the permission \<^verbatim>\<open>{ role: 'reader', type: 'anyone' }\<close> in the same list.
\<close>

fun created_id :: "effect \<Rightarrow> jsstring option" where
  "created_id (FolderCreated name parent new_id) = Some new_id"
| "created_id (FileCopied source name parent new_id) = Some new_id"
| "created_id (PermissionCreated fileId role ty) = None"

definition made_public :: "effect list \<Rightarrow> jsstring \<Rightarrow> bool" where
  "made_public fx i \<longleftrightarrow> PermissionCreated i (str ''reader'') (str ''anyone'') \<in> set fx"

definition all_public :: "effect list \<Rightarrow> bool" where
  "all_public fx \<longleftrightarrow>
     list_all (\<lambda>x. case created_id x of None \<Rightarrow> True | Some i \<Rightarrow> made_public fx i) fx"

fun is_FileCopied :: "effect \<Rightarrow> bool" where
  "is_FileCopied (FileCopied source name parent new_id) = True"
| "is_FileCopied (FolderCreated name parent new_id) = False"
| "is_FileCopied (PermissionCreated fileId role ty) = False"

section \<open>Batch copy engine (\<^verbatim>\<open>CopyService.batchCopy\<close>)\<close>

text \<open>
  A JavaScript number: \<^verbatim>\<open>NaN\<close>, the two infinities, or a finite value.  The concurrency
  is such a number: the request handler takes it from the JSON body without a test of
  its type, and \<^verbatim>\<open>Math.min\<close> converts what it finds (a string that is no numeral
  becomes \<^verbatim>\<open>NaN\<close>).  The finite values are taken from the reals; \<^verbatim>\<open>Math.min\<close>,
  \<^verbatim>\<open>Math.max\<close> and the truncation below return their results without rounding.  The
  two zeros are one value here: they give the same array length.
\<close>

datatype number = NaN | NegInfinity | Num real | PosInfinity

text \<open>\<^verbatim>\<open>Math.min\<close> and \<^verbatim>\<open>Math.max\<close> of two numbers: \<^verbatim>\<open>NaN\<close> if either is \<^verbatim>\<open>NaN\<close>.\<close>

fun Math_min :: "number \<Rightarrow> number \<Rightarrow> number" where
  "Math_min NaN y = NaN"
| "Math_min x NaN = NaN"
| "Math_min NegInfinity y = NegInfinity"
| "Math_min x NegInfinity = NegInfinity"
| "Math_min PosInfinity y = y"
| "Math_min x PosInfinity = x"
| "Math_min (Num a) (Num b) = Num (min a b)"

fun Math_max :: "number \<Rightarrow> number \<Rightarrow> number" where
  "Math_max NaN y = NaN"
| "Math_max x NaN = NaN"
| "Math_max PosInfinity y = PosInfinity"
| "Math_max x PosInfinity = PosInfinity"
| "Math_max NegInfinity y = y"
| "Math_max x NegInfinity = x"
| "Math_max (Num a) (Num b) = Num (max a b)"

text \<open>
  The length that \<^verbatim>\<open>Array.from({ length: v }, ...)\<close> reads from \<open>v\<close> (\<^verbatim>\<open>ToLength\<close>):
  \<^verbatim>\<open>NaN\<close> gives 0, a finite value is truncated, and the result is brought between 0
  and \<^verbatim>\<open>2 ** 53 - 1\<close>.
\<close>

fun ToLength :: "number \<Rightarrow> nat" where
  "ToLength NaN = 0"
| "ToLength NegInfinity = 0"
| "ToLength (Num r) = min (nat \<lfloor>r\<rfloor>) (2 ^ 53 - 1)"
| "ToLength PosInfinity = 2 ^ 53 - 1"

definition MIN_CONCURRENCY :: number where "MIN_CONCURRENCY = Num 1"

definition MAX_CONCURRENCY :: number where "MAX_CONCURRENCY = Num 10"

definition DEFAULT_CONCURRENCY :: number where "DEFAULT_CONCURRENCY = Num 3"

text \<open>\<^verbatim>\<open>Math.max(MIN_CONCURRENCY, Math.min(concurrency, MAX_CONCURRENCY))\<close>\<close>

definition safeConcurrency :: "number \<Rightarrow> number" where
  "safeConcurrency concurrency =
     Math_max MIN_CONCURRENCY (Math_min concurrency MAX_CONCURRENCY)"

record BatchCopyResult =
  res_url :: jsstring
  res_success :: bool
  res_id :: "jsstring option"
  res_name :: "jsstring option"
  res_error :: "jsstring option"

text \<open>The arguments of one call of the \<^verbatim>\<open>ProgressCallback\<close>.\<close>

record ProgressEvent =
  ev_index :: nat
  ev_status :: CopyItemStatus
  ev_progress :: int
  ev_message :: jsstring

text \<open>An element of \<^verbatim>\<open>items = urls.map((url, index) => ({ url, index, parsed }))\<close>.\<close>

record Item =
  it_url :: jsstring
  it_index :: nat
  it_parsed :: "ParsedDriveUrl option"

definition parse_items :: "jsstring list \<Rightarrow> Item list" where
  "parse_items urls =
     map (\<lambda>(index, url). \<lparr>it_url = url, it_index = index, it_parsed = parseGoogleDriveUrl url\<rparr>)
       (enumerate 0 urls)"

text \<open>\<^verbatim>\<open>error instanceof Error ? error.message : 'Unknown error'\<close>\<close>

fun error_message :: "thrown \<Rightarrow> jsstring" where
  "error_message (AppError m) = m"
| "error_message (OtherError m) = m"
| "error_message NotAnError = str ''Unknown error''"

definition progress_event :: "nat \<Rightarrow> CopyItemStatus \<Rightarrow> int \<Rightarrow> jsstring \<Rightarrow> ProgressEvent" where
  "progress_event index st progress message =
     \<lparr>ev_index = index, ev_status = st, ev_progress = progress, ev_message = message\<rparr>"

text \<open>
  The two arrow functions that \<^verbatim>\<open>batchCopy\<close> passes as \<^verbatim>\<open>onProgress\<close> to
  \<^verbatim>\<open>copyFile\<close> and to \<^verbatim>\<open>copyFolder\<close>.
\<close>

definition onFileProgress :: "Item \<Rightarrow> int \<Rightarrow> ProgressEvent" where
  "onFileProgress item progress =
     progress_event (it_index item) ItemProcessing progress (str ''Copying file...'')"

definition onFolderProgress :: "env \<Rightarrow> Item \<Rightarrow> nat \<times> nat \<times> jsstring \<Rightarrow> ProgressEvent" where
  "onFolderProgress e item =
     (\<lambda>(current, tot, fileName).
        let progress = floor_percent e current tot in
        progress_event (it_index item) ItemProcessing progress
          (str ''Copying: '' @ fileName @ str '' ('' @ digits current @ str ''/'' @ digits tot @
           str '')''))"

text \<open>
  The body of the loop of \<^verbatim>\<open>processItem\<close> for one item: the \<^verbatim>\<open>try\<close> block, then the
  handler.  The result is the changes on the Drive, the calls of \<^verbatim>\<open>onProgress\<close> in
  order, and the value stored in \<^verbatim>\<open>results[item.index]\<close>.
\<close>

definition processItem_try ::
  "env \<Rightarrow> resource \<Rightarrow> jsstring \<Rightarrow> Item \<Rightarrow>
   effect list \<times> ProgressEvent list \<times> (thrown + BatchCopyResult)"
where
  "processItem_try e r targetFolderId item =
     (case it_parsed item of
        None \<Rightarrow> ([], [], Inl (AppError (str ''Invalid Google Drive URL'')))
      | Some parsed \<Rightarrow>
          let starting = progress_event (it_index item) ItemProcessing 0 (str ''Starting...'') in
          if parsed_type parsed = File
          then
            (case copyFile e r (parsed_id parsed) targetFolderId None
                    (Some (onFileProgress item)) of
               (fx, evs, Inl err) \<Rightarrow> (fx, starting # evs, Inl err)
             | (fx, evs, Inr result) \<Rightarrow>
                 (fx,
                  starting # evs @
                    [progress_event (it_index item) ItemSuccess 100
                       (str ''Copied: '' @ file_name result)],
                  Inr \<lparr>res_url = it_url item, res_success = True,
                       res_id = Some (file_id result), res_name = Some (file_name result),
                       res_error = None\<rparr>))
          else
            (case copyFolder e r (parsed_id parsed) targetFolderId None
                    (Some (onFolderProgress e item)) of
               (fx, evs, Inl err) \<Rightarrow> (fx, starting # evs, Inl err)
             | (fx, evs, Inr result) \<Rightarrow>
                 (fx,
                  starting # evs @
                    [progress_event (it_index item) ItemSuccess 100
                       (str ''Copied folder: '' @ folder_name result @ str '' ('' @
                        digits (filesCopied result) @ str '' files)'')],
                  Inr \<lparr>res_url = it_url item, res_success = True,
                       res_id = Some (folder_id result), res_name = Some (folder_name result),
                       res_error = None\<rparr>)))"

definition processItem_body ::
  "env \<Rightarrow> resource \<Rightarrow> jsstring \<Rightarrow> Item \<Rightarrow> effect list \<times> ProgressEvent list \<times> BatchCopyResult"
where
  "processItem_body e r targetFolderId item =
     (case processItem_try e r targetFolderId item of
        (fx, evs, Inr res) \<Rightarrow> (fx, evs, res)
      | (fx, evs, Inl err) \<Rightarrow>
          let message = error_message err in
          (fx,
           evs @ [progress_event (it_index item) ItemError 0 (str ''Error: '' @ message)],
           \<lparr>res_url = it_url item, res_success = False, res_id = None, res_name = None,
            res_error = Some message\<rparr>))"

text \<open>
  A worker is one call of \<^verbatim>\<open>processItem\<close>.  It is at the test of its \<^verbatim>\<open>while\<close> loop,
  or in the body for the item it claimed, with the calls of \<^verbatim>\<open>onProgress\<close> it has
  still to make and the result it stores with the last of them, or it has returned.
\<close>

datatype worker = AtLoopHead | InBody nat "ProgressEvent list" BatchCopyResult | Returned

text \<open>The variables of one call of \<^verbatim>\<open>batchCopy\<close>.\<close>

record batch =
  batch_items :: "Item list"
  batch_target :: jsstring
  currentIndex :: nat
  workers :: "worker list"
  results :: "BatchCopyResult option list"

text \<open>
  The start of \<^verbatim>\<open>batchCopy\<close>: the workers made by
  \<^verbatim>\<open>Array.from({ length: Math.min(safeConcurrency, items.length) }, () => processItem())\<close>,
  and \<^verbatim>\<open>results = new Array(urls.length)\<close>.
\<close>

definition batchCopy_start :: "jsstring list \<Rightarrow> jsstring \<Rightarrow> number \<Rightarrow> batch" where
  "batchCopy_start urls targetFolderId concurrency =
     (let its = parse_items urls in
      \<lparr>batch_items = its, batch_target = targetFolderId, currentIndex = 0,
       workers =
         replicate
           (ToLength (Math_min (safeConcurrency concurrency) (Num (real (length its)))))
           AtLoopHead,
       results = replicate (length urls) None\<rparr>)"

text \<open>
  The state of the process as far as one job is concerned: the job map, the call of
  \<^verbatim>\<open>batchCopy\<close> that \<^verbatim>\<open>processJob\<close> awaits, whether \<^verbatim>\<open>processJob\<close> has continued
  after it, and the calls of the progress callback made so far.
\<close>

record system =
  jobs :: registry
  task :: batch
  settled :: bool
  emitted :: "ProgressEvent list"

text \<open>The callback that \<^verbatim>\<open>processJob\<close> passes to \<^verbatim>\<open>batchCopy\<close>.\<close>

definition onProgress_job :: "jsstring \<Rightarrow> ProgressEvent \<Rightarrow> registry \<Rightarrow> registry" where
  "onProgress_job jobId ev =
     updateJobItem jobId (ev_index ev)
       \<lparr>upd_status = ev_status ev, upd_progress = ev_progress ev, upd_message = ev_message ev\<rparr>"

text \<open>
  One step of worker \<open>w\<close>; \<open>answers i\<close> is what the Drive answers while item \<open>i\<close> is
  copied.  At the loop test the worker claims \<^verbatim>\<open>currentIndex++\<close> or returns; in the
  body it makes its next call of \<^verbatim>\<open>onProgress\<close>, and with the last one it stores the
  result and is back at the loop test.  JavaScript runs the code between two
  \<^verbatim>\<open>await\<close>s without interruption; the steps here are finer, so every interleaving
  of the workers that the runtime can produce is a sequence of these steps.
\<close>

definition worker_step :: "env \<Rightarrow> (nat \<Rightarrow> resource) \<Rightarrow> jsstring \<Rightarrow> nat \<Rightarrow> system \<Rightarrow> system" where
  "worker_step e answers jobId w s =
     (let b = task s in
      if \<not> w < length (workers b) then s
      else
        (case workers b ! w of
           Returned \<Rightarrow> s
         | AtLoopHead \<Rightarrow>
             if currentIndex b < length (batch_items b)
             then
               let itemIndex = currentIndex b;
                   item = batch_items b ! itemIndex;
                   (fx, evs, res) = processItem_body e (answers itemIndex) (batch_target b) item
               in s\<lparr>task := b\<lparr>currentIndex := itemIndex + 1,
                                workers := (workers b)[w := InBody itemIndex evs res]\<rparr>\<rparr>
             else s\<lparr>task := b\<lparr>workers := (workers b)[w := Returned]\<rparr>\<rparr>
         | InBody itemIndex [] res \<Rightarrow>
             s\<lparr>task := b\<lparr>workers := (workers b)[w := AtLoopHead],
                          results := (results b)[itemIndex := Some res]\<rparr>\<rparr>
         | InBody itemIndex [ev] res \<Rightarrow>
             s\<lparr>task := b\<lparr>workers := (workers b)[w := AtLoopHead],
                          results := (results b)[itemIndex := Some res]\<rparr>,
               jobs := onProgress_job jobId ev (jobs s),
               emitted := emitted s @ [ev]\<rparr>
         | InBody itemIndex (ev # ev' # evs) res \<Rightarrow>
             s\<lparr>task := b\<lparr>workers := (workers b)[w := InBody itemIndex (ev' # evs) res]\<rparr>,
               jobs := onProgress_job jobId ev (jobs s),
               emitted := emitted s @ [ev]\<rparr>))"

text \<open>
  \<^verbatim>\<open>processJob\<close> after \<^verbatim>\<open>await copyService.batchCopy(...)\<close>: the promise resolves once
  every worker has returned (\<^verbatim>\<open>Promise.all\<close>), and the job, if it is still in the map,
  is marked complete; were the promise rejected, the handler would mark it as error.
\<close>

definition processJob_continue :: "jsstring \<Rightarrow> thrown + unit \<Rightarrow> registry \<Rightarrow> registry" where
  "processJob_continue jobId outcome js =
     (case map_of js jobId of
        None \<Rightarrow> js
      | Some job \<Rightarrow>
          (case outcome of
             Inr u \<Rightarrow> AList.update jobId (job\<lparr>job_status := JobComplete\<rparr>) js
           | Inl err \<Rightarrow> AList.update jobId (job\<lparr>job_status := JobError\<rparr>) js))"

definition settle_step :: "jsstring \<Rightarrow> system \<Rightarrow> system" where
  "settle_step jobId s =
     (if \<not> settled s \<and> list_all (\<lambda>w. w = Returned) (workers (task s))
      then s\<lparr>jobs := processJob_continue jobId (Inr ()) (jobs s), settled := True\<rparr>
      else s)"

text \<open>
  What can happen next: a worker runs, \<^verbatim>\<open>processJob\<close> continues, or a request calls
  \<^verbatim>\<open>deleteJob\<close> or \<^verbatim>\<open>clearOldJobs\<close>.
\<close>

datatype action = Worker nat | Settle | Delete jsstring | ClearOld int int

fun step :: "env \<Rightarrow> (nat \<Rightarrow> resource) \<Rightarrow> jsstring \<Rightarrow> action \<Rightarrow> system \<Rightarrow> system" where
  "step e answers jobId (Worker w) s = worker_step e answers jobId w s"
| "step e answers jobId Settle s = settle_step jobId s"
| "step e answers jobId (Delete j) s = s\<lparr>jobs := snd (deleteJob j (jobs s))\<rparr>"
| "step e answers jobId (ClearOld now maxAgeMs) s =
     s\<lparr>jobs := snd (clearOldJobs now maxAgeMs (jobs s))\<rparr>"

text \<open>The actions of the background task itself.\<close>

fun task_action :: "action \<Rightarrow> bool" where
  "task_action (Worker w) = True"
| "task_action Settle = True"
| "task_action (Delete j) = False"
| "task_action (ClearOld now maxAgeMs) = False"

fun run :: "env \<Rightarrow> (nat \<Rightarrow> resource) \<Rightarrow> jsstring \<Rightarrow> action list \<Rightarrow> system \<Rightarrow> system" where
  "run e answers jobId [] s = s"
| "run e answers jobId (a # as) s = run e answers jobId as (step e answers jobId a s)"

section \<open>Job creation (\<^verbatim>\<open>JobService.createJob\<close>, \<^verbatim>\<open>POST /api/copy\<close>)\<close>

text \<open>
  What \<^verbatim>\<open>createJob\<close> reads from outside: \<^verbatim>\<open>Date.now()\<close> and the random suffix for
  the job id, the date in the default folder name, the time of \<^verbatim>\<open>createdAt\<close>, and the
  answers of the Drive to the creation of the target folder.
\<close>

record moment =
  now_ms :: nat
  random_suffix :: jsstring
  iso_date :: jsstring
  created_ms :: int
  create_answer :: "jsstring option response"
  permission_answer :: "unit response"

definition generateJobId :: "moment \<Rightarrow> jsstring" where
  "generateJobId m = str ''copy_'' @ digits (now_ms m) @ str ''_'' @ random_suffix m"

text \<open>
  \<^verbatim>\<open>createJob\<close>: an error thrown by \<^verbatim>\<open>createFolder\<close> leaves the function before the
  job is built.  Otherwise the job is stored and \<^verbatim>\<open>processJob\<close> is started, not
  awaited.
\<close>

definition createJob ::
  "env \<Rightarrow> moment \<Rightarrow> jsstring list \<Rightarrow> jsstring option \<Rightarrow> jsstring option \<Rightarrow> number \<Rightarrow>
   registry \<Rightarrow> effect list \<times> (thrown + jsstring \<times> system)"
where
  "createJob e m urls targetFolderId targetFolderName concurrency js =
     (let jobId = generateJobId m;
          (fx, folder) =
            (if or_else targetFolderId [] = []
             then
               let folderName = or_else targetFolderName (str ''Copied_'' @ iso_date m)
               in createFolder e (create_answer m) (permission_answer m) folderName None
             else ([], Inr (or_else targetFolderId [])))
      in case folder of
           Inl err \<Rightarrow> (fx, Inl err)
         | Inr folderId \<Rightarrow>
             let job =
                   \<lparr>job_id = jobId, job_status = JobProcessing, totalItems = length urls,
                    completedItems = 0,
                    items =
                      map (\<lambda>(index, url).
                            \<lparr>item_index = index, item_url = url, item_status = ItemPending,
                             item_progress = 0, item_message = str ''Waiting...''\<rparr>)
                        (enumerate 0 urls),
                    job_targetFolderId = folderId, createdAt = created_ms m\<rparr>
             in (fx,
                 Inr (jobId,
                      \<lparr>jobs = AList.update jobId job js,
                       task = batchCopy_start urls folderId concurrency,
                       settled = False, emitted = []\<rparr>)))"

text \<open>
  The request body of \<^verbatim>\<open>POST /api/copy\<close>: \<^verbatim>\<open>urls\<close> (\<open>None\<close> when it is missing or not
  an array), the optional target folder id and name, and the concurrency: \<open>None\<close> when
  the body has none, so that the default applies, and otherwise the number that
  \<^verbatim>\<open>Math.min\<close> makes of the value (\<^verbatim>\<open>NaN\<close> for \<^verbatim>\<open>"abc"\<close>).
\<close>

record request_body =
  body_urls :: "jsstring list option"
  body_targetFolderId :: "jsstring option"
  body_targetFolderName :: "jsstring option"
  body_concurrency :: "number option"

datatype http_response =
    Started jsstring jsstring jsstring
  | Failed nat jsstring

text \<open>\<^verbatim>\<open>getErrorMessage\<close>\<close>

fun getErrorMessage :: "thrown \<Rightarrow> jsstring" where
  "getErrorMessage (AppError m) = m"
| "getErrorMessage (OtherError m) = m"
| "getErrorMessage NotAnError = str ''Network error occurred''"

text \<open>
  The handler \<^verbatim>\<open>POST\<close>.  \<open>Started jobId status targetFolderId\<close> is the JSON answer
  with status 200, \<open>Failed code message\<close> the answer \<^verbatim>\<open>{ error: message }\<close> with that
  status code.  The third component is the job map afterwards, the fourth the
  background task, if one was started.
\<close>

definition POST ::
  "env \<Rightarrow> moment \<Rightarrow> request_body \<Rightarrow> registry \<Rightarrow>
   effect list \<times> http_response \<times> registry \<times> system option"
where
  "POST e m body js =
     (case body_urls body of
        None \<Rightarrow> ([], Failed 400 (str ''Please enter at least one Google Drive link''), js, None)
      | Some urls \<Rightarrow>
          if urls = []
          then ([], Failed 400 (str ''Please enter at least one Google Drive link''), js, None)
          else
            let concurrency =
                  (case body_concurrency body of None \<Rightarrow> DEFAULT_CONCURRENCY | Some c \<Rightarrow> c);
                safe = Math_max MIN_CONCURRENCY (Math_min concurrency MAX_CONCURRENCY)
            in
            (case createJob e m urls (body_targetFolderId body) (body_targetFolderName body)
                    safe js of
               (fx, Inl err) \<Rightarrow> (fx, Failed 500 (getErrorMessage err), js, None)
             | (fx, Inr (jobId, s)) \<Rightarrow>
                 (case getJob (jobs s) jobId of
                    None \<Rightarrow>
                      (fx, Failed 500 (getErrorMessage (OtherError (str ''Failed to create job''))),
                       jobs s, Some s)
                  | Some job \<Rightarrow>
                      (fx, Started jobId (str ''processing'') (job_targetFolderId job),
                       jobs s, Some s))))"

section \<open>Notions for the statements about a running job\<close>

text \<open>
  What the statements assume of \<^verbatim>\<open>Math.floor((current / total) * 100)\<close> for
  \<open>0 < current \<le> total\<close>: it lies between 0 and 100 and does not decrease when
  \<open>current\<close> grows.  Double arithmetic has these properties (division and
  multiplication round monotonically, and \<open>current / total \<le> 1\<close>).
\<close>

definition percent_ok :: "env \<Rightarrow> bool" where
  "percent_ok e \<longleftrightarrow>
     (\<forall>c c' t. 0 < c \<and> c \<le> c' \<and> c' \<le> t \<longrightarrow>
        0 \<le> floor_percent e c t \<and> floor_percent e c t \<le> floor_percent e c' t \<and>
        floor_percent e c' t \<le> 100)"

text \<open>The events of item \<open>i\<close> in a sequence of events.\<close>

definition proj :: "nat \<Rightarrow> ProgressEvent list \<Rightarrow> ProgressEvent list" where
  "proj i evs = filter (\<lambda>ev. ev_index ev = i) evs"

text \<open>
  The events and the result that the body of the loop gives for item \<open>i\<close> of the items
  \<open>its\<close>, copied into the folder \<open>tgt\<close>.
\<close>

definition item_events ::
  "env \<Rightarrow> (nat \<Rightarrow> resource) \<Rightarrow> jsstring \<Rightarrow> Item list \<Rightarrow> nat \<Rightarrow> ProgressEvent list"
where
  "item_events e answers tgt its i = fst (snd (processItem_body e (answers i) tgt (its ! i)))"

definition item_result ::
  "env \<Rightarrow> (nat \<Rightarrow> resource) \<Rightarrow> jsstring \<Rightarrow> Item list \<Rightarrow> nat \<Rightarrow> BatchCopyResult"
where
  "item_result e answers tgt its i = snd (snd (processItem_body e (answers i) tgt (its ! i)))"

text \<open>
  An event list for item \<open>i\<close> is well formed when it is not empty, all its events are
  for \<open>i\<close>, all but the last are processing events, and the last is the success event
  (\<open>ok\<close>) or the error event.
\<close>

definition well_formed_events :: "nat \<Rightarrow> ProgressEvent list \<Rightarrow> bool \<Rightarrow> bool" where
  "well_formed_events i evs ok \<longleftrightarrow>
     evs \<noteq> [] \<and> (\<forall>ev \<in> set evs. ev_index ev = i) \<and>
     (\<forall>ev \<in> set (butlast evs). ev_status ev = ItemProcessing) \<and>
     ev_status (last evs) = (if ok then ItemSuccess else ItemError)"

text \<open>
  Some worker is in the body of the loop for item \<open>i\<close>; item \<open>i\<close> has been claimed and
  no worker is in the body for it any more.
\<close>

definition in_body :: "batch \<Rightarrow> nat \<Rightarrow> bool" where
  "in_body b i \<longleftrightarrow> (\<exists>evs res. InBody i evs res \<in> set (workers b))"

definition finished :: "batch \<Rightarrow> nat \<Rightarrow> bool" where
  "finished b i \<longleftrightarrow> i < currentIndex b \<and> \<not> in_body b i"

text \<open>
  The invariant of the task: the items and the target do not change; without a worker
  no item is claimed; a worker that has returned found the list exhausted; a worker in the body of the loop for item \<open>i\<close> is
  the only one there, and what has been emitted for \<open>i\<close> followed by what the worker still
  has to emit is the event list of \<open>i\<close>; nothing has been emitted for an item that is not
  claimed; everything has been emitted, and the result stored, for a finished item.
\<close>

definition task_inv :: "env \<Rightarrow> (nat \<Rightarrow> resource) \<Rightarrow> jsstring \<Rightarrow> Item list \<Rightarrow> system \<Rightarrow> bool" where
  "task_inv e answers tgt its s \<longleftrightarrow>
     batch_items (task s) = its \<and> batch_target (task s) = tgt \<and>
     length (results (task s)) = length its \<and> currentIndex (task s) \<le> length its \<and>
     (\<forall>i < length its. it_index (its ! i) = i) \<and>
     (workers (task s) = [] \<longrightarrow> currentIndex (task s) = 0) \<and>
     (Returned \<in> set (workers (task s)) \<longrightarrow> currentIndex (task s) = length its) \<and>
     (settled s \<longrightarrow> (\<forall>w \<in> set (workers (task s)). w = Returned)) \<and>
     (\<forall>w < length (workers (task s)). \<forall>i rem res.
        workers (task s) ! w = InBody i rem res \<longrightarrow>
          i < currentIndex (task s) \<and> rem \<noteq> [] \<and>
          item_events e answers tgt its i = proj i (emitted s) @ rem \<and>
          res = item_result e answers tgt its i \<and>
          (\<forall>w' < length (workers (task s)). \<forall>rem' res'.
             workers (task s) ! w' = InBody i rem' res' \<longrightarrow> w' = w)) \<and>
     (\<forall>i < length its. currentIndex (task s) \<le> i \<longrightarrow> proj i (emitted s) = []) \<and>
     (\<forall>i. finished (task s) i \<longrightarrow>
        proj i (emitted s) = item_events e answers tgt its i \<and>
        results (task s) ! i = Some (item_result e answers tgt its i))"

text \<open>
  A bound on the steps that the workers still take: what each has left to do in the
  body it is in and at its loop test, and the bodies of the items not yet claimed.
\<close>

fun worker_weight :: "worker \<Rightarrow> nat" where
  "worker_weight AtLoopHead = 1"
| "worker_weight (InBody i rem res) = length rem + 2"
| "worker_weight Returned = 0"

definition remaining :: "env \<Rightarrow> (nat \<Rightarrow> resource) \<Rightarrow> system \<Rightarrow> nat" where
  "remaining e answers s =
     sum_list (map worker_weight (workers (task s))) +
     sum_list
       (map (\<lambda>i. length (item_events e answers (batch_target (task s)) (batch_items (task s)) i) + 2)
          [currentIndex (task s) ..< length (batch_items (task s))])"

text \<open>The task has a worker, unless it has no item.\<close>

definition staffed :: "system \<Rightarrow> bool" where
  "staffed s \<longleftrightarrow> batch_items (task s) = [] \<or> workers (task s) \<noteq> []"

text \<open>
  The invariant of the job record, while it is in the map: one item per item of the
  task; the status of an item is the status of the last event emitted for it, pending
  when there is none; \<^verbatim>\<open>completedItems\<close> counts the items in a terminal status; and when
  the job is complete, every item is finished.
\<close>

definition job_inv :: "jsstring \<Rightarrow> system \<Rightarrow> bool" where
  "job_inv jobId s \<longleftrightarrow>
     (\<forall>job. map_of (jobs s) jobId = Some job \<longrightarrow>
        length (items job) = length (batch_items (task s)) \<and>
        totalItems job = length (items job) \<and>
        (\<forall>i < length (items job).
           item_status (items job ! i) =
             (if proj i (emitted s) = [] then ItemPending
              else ev_status (last (proj i (emitted s))))) \<and>
        completedItems job =
          length (filter (\<lambda>item. isTerminal (item_status item)) (items job)) \<and>
        (job_status job = JobComplete \<longrightarrow>
           (\<forall>i < length (items job). finished (task s) i)))"

section \<open>Concrete inputs\<close>

text \<open>
  Inputs on which the theorems below are evaluated.  \<open>exact_percent\<close> is the value of
  \<^verbatim>\<open>Math.floor((current / total) * 100)\<close> without rounding error; it is one possible
  \<open>floor_percent\<close>, and agrees with the double arithmetic on the thirds used here
  (33, 66, 100).
\<close>

definition exact_percent :: "nat \<Rightarrow> nat \<Rightarrow> int" where
  "exact_percent current tot = int (100 * current div tot)"

definition env_ok :: env where
  "env_ok = \<lparr>initialize_error = None, floor_percent = exact_percent\<rparr>"

definition moment_ok :: moment where
  "moment_ok =
     \<lparr>now_ms = 7, random_suffix = str ''k3x9'', iso_date = str ''2024-01-01'', created_ms = 7,
      create_answer = Resolves (Some (str ''F1'')), permission_answer = Resolves ()\<rparr>"

definition body_two :: request_body where
  "body_two =
     \<lparr>body_urls = Some [str ''https://drive.google.com/file/d/AAAA/view'', str ''not-a-url''],
      body_targetFolderId = Some (str ''T1''), body_targetFolderName = None,
      body_concurrency = Some (Num 999)\<rparr>"

text \<open>A job whose status is error, created at time 0.\<close>

definition job_failed :: CopyJob where
  "job_failed =
     \<lparr>job_id = str ''copy_0_a'', job_status = JobError, totalItems = 0, completedItems = 0,
      items = [], job_targetFolderId = str ''T1'', createdAt = 0\<rparr>"

definition job_done :: CopyJob where
  "job_done = job_failed\<lparr>job_id := str ''copy_0_b'', job_status := JobComplete\<rparr>"

definition job_running :: CopyJob where
  "job_running = job_failed\<lparr>job_id := str ''copy_0_c'', job_status := JobProcessing\<rparr>"

definition three_jobs :: registry where
  "three_jobs =
     [(str ''copy_0_a'', job_failed), (str ''copy_0_b'', job_done), (str ''copy_0_c'', job_running)]"

text \<open>
  Answers of the Drive: for a file that is copied without a fault, for a file whose
  \<^verbatim>\<open>files.copy\<close> call is rejected, for a file whose copy is made and whose
  \<^verbatim>\<open>permissions.create\<close> call is rejected, and for a folder with two files and a
  subfolder that holds two files.
\<close>

definition plain_file :: "string \<Rightarrow> string \<Rightarrow> resource" where
  "plain_file name new_id =
     Resource
       (Resolves \<lparr>meta_id = str ''S1'', meta_name = str name, meta_mimeType = str ''text/plain''\<rparr>)
       (Resolves \<lparr>copied_id = str new_id, copied_name = Some (str name), copied_size = Some (str ''12'')\<rparr>)
       (Rejects (str ''File not found'')) (Resolves ()) (Rejects (str ''File not found''))"

definition file_ok :: resource where
  "file_ok = plain_file ''a.txt'' ''N1''"

definition file_copy_fault :: resource where
  "file_copy_fault =
     Resource
       (Resolves \<lparr>meta_id = str ''S1'', meta_name = str ''a.txt'', meta_mimeType = str ''text/plain''\<rparr>)
       (Rejects (str ''User rate limit exceeded'')) (Rejects (str ''File not found'')) (Resolves ()) (Rejects (str ''File not found''))"

definition file_permission_fault :: resource where
  "file_permission_fault =
     Resource
       (Resolves \<lparr>meta_id = str ''S1'', meta_name = str ''a.txt'', meta_mimeType = str ''text/plain''\<rparr>)
       (Resolves \<lparr>copied_id = str ''N1'', copied_name = Some (str ''a.txt''), copied_size = Some (str ''12'')\<rparr>)
       (Rejects (str ''File not found'')) (Rejects (str ''Insufficient permissions'')) (Rejects (str ''File not found''))"

definition subfolder_two :: resource where
  "subfolder_two =
     Resource
       (Resolves \<lparr>meta_id = str ''S4'', meta_name = str ''sub'', meta_mimeType = MIME_TYPES_FOLDER\<rparr>)
       (Rejects (str ''Cannot copy a folder'')) (Resolves (Some (str ''N4''))) (Resolves ())
       (Resolves
         [(\<lparr>meta_id = str ''S5'', meta_name = str ''c.txt'', meta_mimeType = str ''text/plain''\<rparr>,
           plain_file ''c.txt'' ''N5''),
          (\<lparr>meta_id = str ''S6'', meta_name = str ''d.txt'', meta_mimeType = str ''text/plain''\<rparr>,
           plain_file ''d.txt'' ''N6'')])"

definition folder_three :: resource where
  "folder_three =
     Resource
       (Resolves \<lparr>meta_id = str ''S0'', meta_name = str ''docs'', meta_mimeType = MIME_TYPES_FOLDER\<rparr>)
       (Rejects (str ''Cannot copy a folder'')) (Resolves (Some (str ''N0''))) (Resolves ())
       (Resolves
         [(\<lparr>meta_id = str ''S2'', meta_name = str ''a.txt'', meta_mimeType = str ''text/plain''\<rparr>,
           plain_file ''a.txt'' ''N2''),
          (\<lparr>meta_id = str ''S3'', meta_name = str ''b.txt'', meta_mimeType = str ''text/plain''\<rparr>,
           plain_file ''b.txt'' ''N3''),
          (\<lparr>meta_id = str ''S4'', meta_name = str ''sub'', meta_mimeType = MIME_TYPES_FOLDER\<rparr>,
           subfolder_two)])"

text \<open>
  The urls of \<open>body_two\<close>, the job that \<^verbatim>\<open>createJob\<close> stores for them at \<open>moment_ok\<close>
  and the state it leaves; then answers of the Drive with a fault in the copy of the
  first item.
\<close>

definition urls_two :: "jsstring list" where
  "urls_two = [str ''https://drive.google.com/file/d/AAAA/view'', str ''not-a-url'']"

definition job_two :: CopyJob where
  "job_two =
     \<lparr>job_id = str ''copy_7_k3x9'', job_status = JobProcessing, totalItems = 2,
      completedItems = 0,
      items =
        [\<lparr>item_index = 0, item_url = str ''https://drive.google.com/file/d/AAAA/view'',
          item_status = ItemPending, item_progress = 0, item_message = str ''Waiting...''\<rparr>,
         \<lparr>item_index = 1, item_url = str ''not-a-url'', item_status = ItemPending,
          item_progress = 0, item_message = str ''Waiting...''\<rparr>],
      job_targetFolderId = str ''T1'', createdAt = 7\<rparr>"

definition system_two :: system where
  "system_two =
     \<lparr>jobs = [(str ''copy_7_k3x9'', job_two)],
      task = batchCopy_start urls_two (str ''T1'') (Num 10), settled = False, emitted = []\<rparr>"

text \<open>
  The request of \<open>body_two\<close> with \<^verbatim>\<open>"concurrency": "abc"\<close>, and the state that
  \<^verbatim>\<open>createJob\<close> leaves for it.
\<close>

definition body_nan :: request_body where
  "body_nan = body_two\<lparr>body_concurrency := Some NaN\<rparr>"

definition system_nan :: system where
  "system_nan =
     \<lparr>jobs = [(str ''copy_7_k3x9'', job_two)],
      task = batchCopy_start urls_two (str ''T1'') NaN, settled = False, emitted = []\<rparr>"

definition answers_fault :: "nat \<Rightarrow> resource" where
  "answers_fault i = (if i = 0 then file_copy_fault else file_ok)"

definition item_folder :: Item where
  "item_folder =
     \<lparr>it_url = str ''https://drive.google.com/drive/folders/FFF'', it_index = 0,
      it_parsed = Some \<lparr>parsed_id = str ''FFF'', parsed_type = Folder\<rparr>\<rparr>"

definition item_file :: Item where
  "item_file =
     \<lparr>it_url = str ''https://drive.google.com/file/d/AAAA/view'', it_index = 0,
      it_parsed = Some \<lparr>parsed_id = str ''AAAA'', parsed_type = File\<rparr>\<rparr>"

text \<open>
  A request that names no target folder, at a moment when the Drive rejects the creation
  of the folder.
\<close>

definition moment_folder_fault :: moment where
  "moment_folder_fault = moment_ok\<lparr>create_answer := Rejects (str ''User rate limit exceeded'')\<rparr>"

definition body_new_folder :: request_body where
  "body_new_folder = body_two\<lparr>body_targetFolderId := None\<rparr>"

text \<open>
  A schedule of the two workers of \<open>system_two\<close> that runs the job to its end, and the
  job at the end of it.
\<close>

definition schedule_two :: "action list" where
  "schedule_two =
     [Worker 0, Worker 1, Worker 0, Worker 0, Worker 1, Worker 0, Worker 0, Worker 1, Settle]"

definition job_two_end :: CopyJob where
  "job_two_end =
     \<lparr>job_id = str ''copy_7_k3x9'', job_status = JobComplete, totalItems = 2,
      completedItems = 2,
      items =
        [\<lparr>item_index = 0, item_url = str ''https://drive.google.com/file/d/AAAA/view'',
          item_status = ItemError, item_progress = 0,
          item_message = str ''Error: Failed to copy file''\<rparr>,
         \<lparr>item_index = 1, item_url = str ''not-a-url'', item_status = ItemError,
          item_progress = 0, item_message = str ''Error: Invalid Google Drive URL''\<rparr>],
      job_targetFolderId = str ''T1'', createdAt = 7\<rparr>"

text \<open>
  A job of two items, a file whose copy the Drive rejects and a folder that is copied
  without a fault: the urls, the answers of the Drive, the state that \<^verbatim>\<open>createJob\<close>
  leaves, a schedule of the two workers that runs the job to its end, and the events of
  the two items.
\<close>

definition urls_pair :: "jsstring list" where
  "urls_pair =
     [str ''https://drive.google.com/file/d/AAAA/view'',
      str ''https://drive.google.com/drive/folders/FFF'']"

definition answers_pair :: "nat \<Rightarrow> resource" where
  "answers_pair i = (if i = 0 then file_copy_fault else folder_three)"

definition job_pair :: CopyJob where
  "job_pair =
     \<lparr>job_id = str ''copy_7_k3x9'', job_status = JobProcessing, totalItems = 2,
      completedItems = 0,
      items =
        [\<lparr>item_index = 0, item_url = str ''https://drive.google.com/file/d/AAAA/view'',
          item_status = ItemPending, item_progress = 0, item_message = str ''Waiting...''\<rparr>,
         \<lparr>item_index = 1, item_url = str ''https://drive.google.com/drive/folders/FFF'',
          item_status = ItemPending, item_progress = 0, item_message = str ''Waiting...''\<rparr>],
      job_targetFolderId = str ''T1'', createdAt = 7\<rparr>"

definition system_pair :: system where
  "system_pair =
     \<lparr>jobs = [(str ''copy_7_k3x9'', job_pair)],
      task = batchCopy_start urls_pair (str ''T1'') (Num 2), settled = False, emitted = []\<rparr>"

definition schedule_pair :: "action list" where
  "schedule_pair =
     [Worker 0, Worker 1, Worker 0, Worker 1, Worker 0, Worker 1, Worker 0, Worker 1,
      Worker 0, Worker 1, Worker 1, Worker 1, Settle]"

definition events_file_fault :: "ProgressEvent list" where
  "events_file_fault =
     [\<lparr>ev_index = 0, ev_status = ItemProcessing, ev_progress = 0,
       ev_message = str ''Starting...''\<rparr>,
      \<lparr>ev_index = 0, ev_status = ItemProcessing, ev_progress = 10,
       ev_message = str ''Copying file...''\<rparr>,
      \<lparr>ev_index = 0, ev_status = ItemError, ev_progress = 0,
       ev_message = str ''Error: Failed to copy file''\<rparr>]"

definition events_folder_ok :: "ProgressEvent list" where
  "events_folder_ok =
     [\<lparr>ev_index = 1, ev_status = ItemProcessing, ev_progress = 0,
       ev_message = str ''Starting...''\<rparr>,
      \<lparr>ev_index = 1, ev_status = ItemProcessing, ev_progress = 33,
       ev_message = str ''Copying: a.txt (1/3)''\<rparr>,
      \<lparr>ev_index = 1, ev_status = ItemProcessing, ev_progress = 66,
       ev_message = str ''Copying: b.txt (2/3)''\<rparr>,
      \<lparr>ev_index = 1, ev_status = ItemProcessing, ev_progress = 100,
       ev_message = str ''Copying: sub (3/3)''\<rparr>,
      \<lparr>ev_index = 1, ev_status = ItemSuccess, ev_progress = 100,
       ev_message = str ''Copied folder: docs (3 files)''\<rparr>]"

text \<open>The job of \<open>system_pair\<close> at the end of \<open>schedule_pair\<close>.\<close>

definition job_pair_end :: CopyJob where
  "job_pair_end =
     \<lparr>job_id = str ''copy_7_k3x9'', job_status = JobComplete, totalItems = 2,
      completedItems = 2,
      items =
        [\<lparr>item_index = 0, item_url = str ''https://drive.google.com/file/d/AAAA/view'',
          item_status = ItemError, item_progress = 0,
          item_message = str ''Error: Failed to copy file''\<rparr>,
         \<lparr>item_index = 1, item_url = str ''https://drive.google.com/drive/folders/FFF'',
          item_status = ItemSuccess, item_progress = 100,
          item_message = str ''Copied folder: docs (3 files)''\<rparr>],
      job_targetFolderId = str ''T1'', createdAt = 7\<rparr>"

section \<open>The URL parser\<close>


lemma dropWhile_all: "list_all P ws \<Longrightarrow> dropWhile P (ws @ s) = dropWhile P s"
  by (induction ws) auto

lemma trim_ws:
  assumes "list_all isWhiteSpace ws" "list_all isWhiteSpace ws'"
  shows "trim (ws @ s @ ws') = trim s"
proof -
  let ?P = isWhiteSpace
  have a: "dropWhile ?P (ws @ s @ ws') = dropWhile ?P (s @ ws')"
    using assms(1) by (rule dropWhile_all)
  have r: "list_all ?P (rev ws')" using assms(2) by (simp add: list_all_iff)
  have b: "dropWhile ?P (rev (dropWhile ?P (s @ ws'))) = dropWhile ?P (rev (dropWhile ?P s))"
  proof (cases "list_all ?P s")
    case True
    then have e1: "dropWhile ?P s = []"
      unfolding dropWhile_eq_Nil_conv by (simp add: list_all_iff)
    have e2: "dropWhile ?P (s @ ws') = []"
      using True assms(2) unfolding dropWhile_eq_Nil_conv by (auto simp: list_all_iff)
    show ?thesis unfolding e1 e2 ..
  next
    case False
    then obtain x where "x \<in> set s" "\<not> ?P x" by (auto simp: list_all_iff)
    then have "dropWhile ?P (s @ ws') = dropWhile ?P s @ ws'"
      by (rule dropWhile_append1)
    then show ?thesis using dropWhile_all [OF r] by simp
  qed
  show ?thesis unfolding trim_def a b ..
qed

lemma trim_id: "s \<noteq> [] \<Longrightarrow> \<not> isWhiteSpace (hd s) \<Longrightarrow> \<not> isWhiteSpace (last s) \<Longrightarrow> trim s = s"
proof -
  assume a: "s \<noteq> []" "\<not> isWhiteSpace (hd s)" "\<not> isWhiteSpace (last s)"
  then have 1: "dropWhile isWhiteSpace s = s" by (simp add: dropWhile_eq_self_iff)
  have "hd (rev s) = last s" using a(1) by (simp add: hd_rev)
  then have 2: "dropWhile isWhiteSpace (rev s) = rev s"
    using a(3) by (simp add: dropWhile_eq_self_iff)
  show ?thesis by (simp add: trim_def 1 2)
qed

lemma idchar_not_ws: "isIdChar c \<Longrightarrow> \<not> isWhiteSpace c"
  unfolding isIdChar_def isWhiteSpace_def isLineTerminator_def by presburger

lemma lit_append: "lit l k (l @ s) = k s"
  by (induction l) auto

lemma idgroup_run:
  "i \<noteq> [] \<Longrightarrow> list_all isIdChar i \<Longrightarrow> rest = [] \<or> \<not> isIdChar (hd rest) \<Longrightarrow> idgroup (i @ rest) = Some i"
proof -
  assume a: "i \<noteq> []" "list_all isIdChar i" "rest = [] \<or> \<not> isIdChar (hd rest)"
  have "takeWhile isIdChar rest = []" using a(3) by (cases rest) auto
  then have "takeWhile isIdChar (i @ rest) = i"
    using a(2) by (simp add: takeWhile_append2 list_all_iff)
  then show ?thesis using a(1) by (cases i) (simp_all add: idgroup_def)
qed

lemma lit_Some_prefix: "lit l k s = Some r \<Longrightarrow> \<exists>rest. s = l @ rest \<and> k rest = Some r"
  by (induction l k s rule: lit.induct) (auto split: if_splits)

lemma search_Some: "search m s = Some r \<Longrightarrow> \<exists>pre suf. s = pre @ suf \<and> m suf = Some r"
proof (induction m s rule: search.induct)
  case (1 m)
  then have "[] = [] @ ([]::nat list) \<and> m [] = Some r" by simp
  then show ?case by (intro exI)
next
  case (2 m c cs)
  show ?case
  proof (cases "m (c # cs)")
    case None
    then have "search m cs = Some r" using "2.prems" by simp
    from "2.IH" [OF None this] obtain pre suf where ps: "cs = pre @ suf" "m suf = Some r"
      by (elim exE conjE)
    then have "c # cs = (c # pre) @ suf \<and> m suf = Some r" by simp
    then show ?thesis by (intro exI)
  next
    case (Some a)
    with 2 have "c # cs = [] @ (c # cs) \<and> m (c # cs) = Some r" by simp
    then show ?thesis by (intro exI)
  qed
qed

lemma search_lit_idchars:
  assumes "list_all isIdChar s" "46 \<in> set l"
  shows "search (lit l k) s = None"
proof (cases "search (lit l k) s")
  case None
  then show ?thesis .
next
  case (Some r)
  from search_Some [OF Some] obtain pre suf where s: "s = pre @ suf" "lit l k suf = Some r"
    by (elim exE conjE)
  from lit_Some_prefix [OF s(2)] obtain rest where "suf = l @ rest"
    by (elim exE conjE)
  with s(1) assms(2) have "46 \<in> set s" by simp
  with assms(1) have "isIdChar 46" by (simp add: list_all_iff)
  then show ?thesis by (simp add: isIdChar_def)
qed

lemma dot_in_lits:
  "46 \<in> set (str ''drive.google.com/file/d/'')"
  "46 \<in> set (str ''drive.google.com/open?id='')"
  "46 \<in> set (str ''drive.google.com/uc?'')"
  "46 \<in> set (str ''drive.google.com/drive/folders/'')"
  by (simp_all add: str_def)

lemma idgroup_ne: "idgroup s \<noteq> Some []"
  by (simp add: idgroup_def split: list.splits)

lemma lit_ne: "(\<And>s. k s \<noteq> Some []) \<Longrightarrow> lit l k s \<noteq> Some []"
  by (induction l k s rule: lit.induct) auto

lemma dotstar_ne: "(\<And>s. k s \<noteq> Some []) \<Longrightarrow> dotstar k s \<noteq> Some []"
  by (induction k s rule: dotstar.induct) (auto split: option.splits)

lemma search_ne: "(\<And>s. m s \<noteq> Some []) \<Longrightarrow> search m s \<noteq> Some []"
  by (induction m s rule: search.induct) (auto split: option.splits)

lemma DRIVE_FILE_ne: "DRIVE_FILE t \<noteq> Some []"
  unfolding DRIVE_FILE_def by (intro search_ne lit_ne idgroup_ne)

lemma DRIVE_FILE_OPEN_ne: "DRIVE_FILE_OPEN t \<noteq> Some []"
  unfolding DRIVE_FILE_OPEN_def by (intro search_ne lit_ne idgroup_ne)

lemma DRIVE_FILE_UC_ne: "DRIVE_FILE_UC t \<noteq> Some []"
  unfolding DRIVE_FILE_UC_def by (intro search_ne lit_ne dotstar_ne idgroup_ne)

lemma DRIVE_FOLDER_ne: "DRIVE_FOLDER t \<noteq> Some []"
  unfolding DRIVE_FOLDER_def by (intro search_ne lit_ne idgroup_ne)

lemma try_patterns_priority:
  "try_patterns patterns t =
     (case DRIVE_FILE t of
        Some i \<Rightarrow> Some \<lparr>parsed_id = i, parsed_type = File\<rparr>
      | None \<Rightarrow>
     (case DRIVE_FILE_OPEN t of
        Some i \<Rightarrow> Some \<lparr>parsed_id = i, parsed_type = File\<rparr>
      | None \<Rightarrow>
     (case DRIVE_FILE_UC t of
        Some i \<Rightarrow> Some \<lparr>parsed_id = i, parsed_type = File\<rparr>
      | None \<Rightarrow>
     (case DRIVE_FOLDER t of
        Some i \<Rightarrow> Some \<lparr>parsed_id = i, parsed_type = Folder\<rparr>
      | None \<Rightarrow> None))))"
  using DRIVE_FILE_ne [of t] DRIVE_FILE_OPEN_ne [of t] DRIVE_FILE_UC_ne [of t] DRIVE_FOLDER_ne [of t]
  by (simp add: patterns_def split: option.splits)

lemma bare_no_match:
  assumes "list_all isIdChar s"
  shows "DRIVE_FILE s = None" "DRIVE_FILE_OPEN s = None" "DRIVE_FILE_UC s = None"
    "DRIVE_FOLDER s = None"
  unfolding DRIVE_FILE_def DRIVE_FILE_OPEN_def DRIVE_FILE_UC_def DRIVE_FOLDER_def
  by (rule search_lit_idchars [OF assms dot_in_lits(1)] search_lit_idchars [OF assms dot_in_lits(2)]
        search_lit_idchars [OF assms dot_in_lits(3)] search_lit_idchars [OF assms dot_in_lits(4)])+

lemma dotstar_idchars:
  "list_all isIdChar i \<Longrightarrow> dotstar (lit (str ''id='') idgroup) i = None"
proof (induction i)
  case Nil
  then show ?case by (simp add: str_def)
next
  case (Cons c cs)
  have nl: "\<not> isLineTerminator c" using Cons.prems by (auto simp: isIdChar_def isLineTerminator_def)
  have "lit (str ''id='') idgroup (c # cs) = None"
  proof (cases "lit (str ''id='') idgroup (c # cs)")
    case None
    then show ?thesis .
  next
    case (Some r)
    from lit_Some_prefix [OF Some] obtain rest where "c # cs = str ''id='' @ rest"
      by (elim exE conjE)
    then have "61 \<in> set (c # cs)" by (simp add: str_def)
    with Cons.prems have "isIdChar 61" unfolding list_all_iff by blast
    then show ?thesis by (simp add: isIdChar_def)
  qed
  with Cons nl show ?case by simp
qed

lemma search_hit: "m s = Some r \<Longrightarrow> search m s = Some r"
  by (cases s) simp_all

lemma idgroup_all: "i \<noteq> [] \<Longrightarrow> list_all isIdChar i \<Longrightarrow> idgroup i = Some i"
  using idgroup_run [of i "[]"] by simp

lemma shape_file:
  assumes "i \<noteq> []" "list_all isIdChar i"
  shows "parseGoogleDriveUrl (str ''https://drive.google.com/file/d/'' @ i @ str ''/view'') =
         Some \<lparr>parsed_id = i, parsed_type = File\<rparr>"
proof -
  let ?u = "str ''https://drive.google.com/file/d/'' @ i @ str ''/view''"
  have t: "trim ?u = ?u"
    by (rule trim_id) (simp_all add: str_def isWhiteSpace_def isLineTerminator_def)
  have g: "idgroup (i @ str ''/view'') = Some i"
    by (rule idgroup_run [OF assms]) (simp add: str_def isIdChar_def)
  have u: "?u = str ''https://'' @ str ''drive.google.com/file/d/'' @ i @ str ''/view''"
    by (simp add: str_def)
  have "lit (str ''drive.google.com/file/d/'') idgroup
          (str ''drive.google.com/file/d/'' @ i @ str ''/view'') = Some i"
    by (simp only: lit_append g)
  then have "search (lit (str ''drive.google.com/file/d/'') idgroup)
          (str ''drive.google.com/file/d/'' @ i @ str ''/view'') = Some i"
    by (rule search_hit)
  then have "DRIVE_FILE ?u = Some i"
    unfolding DRIVE_FILE_def u by (simp add: str_def)
  moreover have "?u \<noteq> []" by (simp add: str_def)
  ultimately show ?thesis
    by (simp add: parseGoogleDriveUrl_def t try_patterns_priority)
qed

lemma shape_open:
  assumes "i \<noteq> []" "list_all isIdChar i"
  shows "parseGoogleDriveUrl (str ''https://drive.google.com/open?id='' @ i) =
         Some \<lparr>parsed_id = i, parsed_type = File\<rparr>"
proof -
  let ?u = "str ''https://drive.google.com/open?id='' @ i"
  have "\<not> isWhiteSpace (last i)"
    using assms by (intro idchar_not_ws) (simp add: list_all_iff)
  then have t: "trim ?u = ?u"
    using assms(1) by (intro trim_id) (simp_all add: str_def isWhiteSpace_def isLineTerminator_def)
  have f: "DRIVE_FILE ?u = None"
    unfolding DRIVE_FILE_def using search_lit_idchars [OF assms(2) dot_in_lits(1)]
    by (simp add: str_def)
  have u: "?u = str ''https://'' @ str ''drive.google.com/open?id='' @ i"
    by (simp add: str_def)
  have "lit (str ''drive.google.com/open?id='') idgroup (str ''drive.google.com/open?id='' @ i) = Some i"
    by (simp only: lit_append idgroup_all [OF assms])
  then have "search (lit (str ''drive.google.com/open?id='') idgroup)
          (str ''drive.google.com/open?id='' @ i) = Some i"
    by (rule search_hit)
  then have "DRIVE_FILE_OPEN ?u = Some i"
    unfolding DRIVE_FILE_OPEN_def u by (simp add: str_def)
  moreover have "?u \<noteq> []" by (simp add: str_def)
  ultimately show ?thesis
    by (simp add: parseGoogleDriveUrl_def t try_patterns_priority f)
qed

lemma shape_uc:
  assumes "i \<noteq> []" "list_all isIdChar i"
  shows "parseGoogleDriveUrl (str ''https://drive.google.com/uc?export=download&id='' @ i) =
         Some \<lparr>parsed_id = i, parsed_type = File\<rparr>"
proof -
  let ?u = "str ''https://drive.google.com/uc?export=download&id='' @ i"
  have "\<not> isWhiteSpace (last i)"
    using assms by (intro idchar_not_ws) (simp add: list_all_iff)
  then have t: "trim ?u = ?u"
    using assms(1) by (intro trim_id) (simp_all add: str_def isWhiteSpace_def isLineTerminator_def)
  have f: "DRIVE_FILE ?u = None"
    unfolding DRIVE_FILE_def using search_lit_idchars [OF assms(2) dot_in_lits(1)]
    by (simp add: str_def)
  have g: "DRIVE_FILE_OPEN ?u = None"
    unfolding DRIVE_FILE_OPEN_def using search_lit_idchars [OF assms(2) dot_in_lits(2)]
    by (simp add: str_def)
  have d: "dotstar (lit (str ''id='') idgroup) (str ''export=download&id='' @ i) = Some i"
    using dotstar_idchars [OF assms(2)] idgroup_all [OF assms]
    by (simp add: str_def isLineTerminator_def)
  have u: "?u = str ''https://'' @ str ''drive.google.com/uc?'' @ str ''export=download&id='' @ i"
    by (simp add: str_def)
  have "lit (str ''drive.google.com/uc?'') (dotstar (lit (str ''id='') idgroup))
          (str ''drive.google.com/uc?'' @ str ''export=download&id='' @ i) = Some i"
    by (simp only: lit_append d)
  then have "search (lit (str ''drive.google.com/uc?'') (dotstar (lit (str ''id='') idgroup)))
          (str ''drive.google.com/uc?'' @ str ''export=download&id='' @ i) = Some i"
    by (rule search_hit)
  then have "DRIVE_FILE_UC ?u = Some i"
    unfolding DRIVE_FILE_UC_def u by (simp add: str_def)
  moreover have "?u \<noteq> []" by (simp add: str_def)
  ultimately show ?thesis
    by (simp add: parseGoogleDriveUrl_def t try_patterns_priority f g)
qed

lemma shape_folder:
  assumes "i \<noteq> []" "list_all isIdChar i"
  shows "parseGoogleDriveUrl (str ''https://drive.google.com/drive/folders/'' @ i) =
         Some \<lparr>parsed_id = i, parsed_type = Folder\<rparr>"
proof -
  let ?u = "str ''https://drive.google.com/drive/folders/'' @ i"
  have "\<not> isWhiteSpace (last i)"
    using assms by (intro idchar_not_ws) (simp add: list_all_iff)
  then have t: "trim ?u = ?u"
    using assms(1) by (intro trim_id) (simp_all add: str_def isWhiteSpace_def isLineTerminator_def)
  have f: "DRIVE_FILE ?u = None"
    unfolding DRIVE_FILE_def using search_lit_idchars [OF assms(2) dot_in_lits(1)]
    by (simp add: str_def)
  have g: "DRIVE_FILE_OPEN ?u = None"
    unfolding DRIVE_FILE_OPEN_def using search_lit_idchars [OF assms(2) dot_in_lits(2)]
    by (simp add: str_def)
  have h: "DRIVE_FILE_UC ?u = None"
    unfolding DRIVE_FILE_UC_def using search_lit_idchars [OF assms(2) dot_in_lits(3)]
    by (simp add: str_def)
  have u: "?u = str ''https://'' @ str ''drive.google.com/drive/folders/'' @ i"
    by (simp add: str_def)
  have "lit (str ''drive.google.com/drive/folders/'') idgroup
          (str ''drive.google.com/drive/folders/'' @ i) = Some i"
    by (simp only: lit_append idgroup_all [OF assms])
  then have "search (lit (str ''drive.google.com/drive/folders/'') idgroup)
          (str ''drive.google.com/drive/folders/'' @ i) = Some i"
    by (rule search_hit)
  then have "DRIVE_FOLDER ?u = Some i"
    unfolding DRIVE_FOLDER_def u by (simp add: str_def)
  moreover have "?u \<noteq> []" by (simp add: str_def)
  ultimately show ?thesis
    by (simp add: parseGoogleDriveUrl_def t try_patterns_priority f g h)
qed

lemma shape_bare:
  assumes "25 \<le> length i" "list_all isIdChar i"
  shows "parseGoogleDriveUrl i = Some \<lparr>parsed_id = i, parsed_type = File\<rparr>"
proof -
  have ne: "i \<noteq> []" using assms(1) by auto
  have "\<not> isWhiteSpace (hd i)" "\<not> isWhiteSpace (last i)"
    using assms(2) ne by (simp_all add: idchar_not_ws list_all_iff)
  then have t: "trim i = i" using ne by (intro trim_id)
  show ?thesis
    using ne assms
    by (simp add: parseGoogleDriveUrl_def t try_patterns_priority bare_no_match DRIVE_ID_ONLY_def)
qed

lemma parse_cases:
  "parseGoogleDriveUrl url =
     (case DRIVE_FILE (trim url) of
        Some i \<Rightarrow> Some \<lparr>parsed_id = i, parsed_type = File\<rparr>
      | None \<Rightarrow>
     (case DRIVE_FILE_OPEN (trim url) of
        Some i \<Rightarrow> Some \<lparr>parsed_id = i, parsed_type = File\<rparr>
      | None \<Rightarrow>
     (case DRIVE_FILE_UC (trim url) of
        Some i \<Rightarrow> Some \<lparr>parsed_id = i, parsed_type = File\<rparr>
      | None \<Rightarrow>
     (case DRIVE_FOLDER (trim url) of
        Some i \<Rightarrow> Some \<lparr>parsed_id = i, parsed_type = Folder\<rparr>
      | None \<Rightarrow>
     (if 25 \<le> length (trim url) \<and> list_all isIdChar (trim url)
      then Some \<lparr>parsed_id = trim url, parsed_type = File\<rparr>
      else None)))))"
proof (cases "url = []")
  case True
  have "trim [] = []" by (simp add: trim_def)
  moreover have "DRIVE_FILE [] = None" "DRIVE_FILE_OPEN [] = None" "DRIVE_FILE_UC [] = None"
    "DRIVE_FOLDER [] = None"
    by (rule bare_no_match, simp)+
  ultimately show ?thesis using True by (simp add: parseGoogleDriveUrl_def)
next
  case False
  then show ?thesis
    by (simp add: parseGoogleDriveUrl_def try_patterns_priority DRIVE_ID_ONLY_def Let_def
        split: option.splits)
qed

lemma parse_ws:
  assumes "list_all isWhiteSpace ws" "list_all isWhiteSpace ws'"
  shows "parseGoogleDriveUrl (ws @ url @ ws') = parseGoogleDriveUrl url"
  unfolding parse_cases trim_ws [OF assms] ..


text \<open>
  C4.  \<^verbatim>\<open>parseGoogleDriveUrl\<close> trims its input and tries the file-view pattern, the
  \<^verbatim>\<open>open?id=\<close> pattern, the \<^verbatim>\<open>uc?...id=\<close> pattern and the folder pattern in this
  order; the first one that matches gives the type and the captured id; when none
  matches, a trimmed input of at least 25 identifier characters is a file id, and
  anything else gives \<^verbatim>\<open>null\<close>.  The function is total: no input makes it throw.
  White space around the input does not change the result.  A link of each of the four
  shapes with a non-empty id of identifier characters, and a bare id of at least 25
  such characters, are parsed to that id with the expected type.
\<close>

theorem parseGoogleDriveUrl_priority_order:
  "parseGoogleDriveUrl url =
     (case DRIVE_FILE (trim url) of
        Some i \<Rightarrow> Some \<lparr>parsed_id = i, parsed_type = File\<rparr>
      | None \<Rightarrow>
     (case DRIVE_FILE_OPEN (trim url) of
        Some i \<Rightarrow> Some \<lparr>parsed_id = i, parsed_type = File\<rparr>
      | None \<Rightarrow>
     (case DRIVE_FILE_UC (trim url) of
        Some i \<Rightarrow> Some \<lparr>parsed_id = i, parsed_type = File\<rparr>
      | None \<Rightarrow>
     (case DRIVE_FOLDER (trim url) of
        Some i \<Rightarrow> Some \<lparr>parsed_id = i, parsed_type = Folder\<rparr>
      | None \<Rightarrow>
     (if 25 \<le> length (trim url) \<and> list_all isIdChar (trim url)
      then Some \<lparr>parsed_id = trim url, parsed_type = File\<rparr>
      else None))))) \<and>
   (list_all isWhiteSpace ws \<and> list_all isWhiteSpace ws' \<longrightarrow>
      parseGoogleDriveUrl (ws @ url @ ws') = parseGoogleDriveUrl url) \<and>
   (fid \<noteq> [] \<and> list_all isIdChar fid \<longrightarrow>
      parseGoogleDriveUrl (str ''https://drive.google.com/file/d/'' @ fid @ str ''/view'') =
        Some \<lparr>parsed_id = fid, parsed_type = File\<rparr> \<and>
      parseGoogleDriveUrl (str ''https://drive.google.com/open?id='' @ fid) =
        Some \<lparr>parsed_id = fid, parsed_type = File\<rparr> \<and>
      parseGoogleDriveUrl (str ''https://drive.google.com/uc?export=download&id='' @ fid) =
        Some \<lparr>parsed_id = fid, parsed_type = File\<rparr> \<and>
      parseGoogleDriveUrl (str ''https://drive.google.com/drive/folders/'' @ fid) =
        Some \<lparr>parsed_id = fid, parsed_type = Folder\<rparr>) \<and>
   (25 \<le> length fid \<and> list_all isIdChar fid \<longrightarrow>
      parseGoogleDriveUrl fid = Some \<lparr>parsed_id = fid, parsed_type = File\<rparr>)"
  apply (intro conjI impI)
  subgoal by (rule parse_cases)
  subgoal by (elim conjE) (rule parse_ws; assumption)
  subgoal by (elim conjE) (rule shape_file; assumption)
  subgoal by (elim conjE) (rule shape_open; assumption)
  subgoal by (elim conjE) (rule shape_uc; assumption)
  subgoal by (elim conjE) (rule shape_folder; assumption)
  subgoal by (elim conjE) (rule shape_bare; assumption)
  done

theorem parseGoogleDriveUrl_priority_order_witness:
  "list_all isWhiteSpace [32, 9] \<and> list_all isWhiteSpace [13, 10] \<and>
   str ''1A2b3C4d5E6f7G8h9I0j-_xyz'' \<noteq> [] \<and>
   25 \<le> length (str ''1A2b3C4d5E6f7G8h9I0j-_xyz'') \<and>
   list_all isIdChar (str ''1A2b3C4d5E6f7G8h9I0j-_xyz'') \<and>
   parseGoogleDriveUrl ([32, 9] @ str ''not-a-url'' @ [13, 10]) =
     parseGoogleDriveUrl (str ''not-a-url'') \<and>
   parseGoogleDriveUrl
     (str ''https://drive.google.com/file/d/'' @ str ''1A2b3C4d5E6f7G8h9I0j-_xyz'' @ str ''/view'') =
     Some \<lparr>parsed_id = str ''1A2b3C4d5E6f7G8h9I0j-_xyz'', parsed_type = File\<rparr> \<and>
   parseGoogleDriveUrl
     (str ''https://drive.google.com/drive/folders/'' @ str ''1A2b3C4d5E6f7G8h9I0j-_xyz'') =
     Some \<lparr>parsed_id = str ''1A2b3C4d5E6f7G8h9I0j-_xyz'', parsed_type = Folder\<rparr> \<and>
   parseGoogleDriveUrl (str ''1A2b3C4d5E6f7G8h9I0j-_xyz'') =
     Some \<lparr>parsed_id = str ''1A2b3C4d5E6f7G8h9I0j-_xyz'', parsed_type = File\<rparr>"
proof -
  have w: "list_all isWhiteSpace [32, 9]" "list_all isWhiteSpace [13, 10]"
    by (simp_all add: isWhiteSpace_def isLineTerminator_def)
  have i: "str ''1A2b3C4d5E6f7G8h9I0j-_xyz'' \<noteq> []"
    "25 \<le> length (str ''1A2b3C4d5E6f7G8h9I0j-_xyz'')"
    "list_all isIdChar (str ''1A2b3C4d5E6f7G8h9I0j-_xyz'')"
    by (simp_all add: str_def isIdChar_def)
  show ?thesis
    using w i
      parseGoogleDriveUrl_priority_order
        [of "str ''not-a-url''" "[32, 9]" "[13, 10]" "str ''1A2b3C4d5E6f7G8h9I0j-_xyz''"]
    by simp
qed

section \<open>Concurrency\<close>

lemma safeConcurrency_Num:
  "safeConcurrency (Num r) = Num (max 1 (min r 10))"
  by (simp add: safeConcurrency_def MIN_CONCURRENCY_def MAX_CONCURRENCY_def)

lemma safeConcurrency_cases:
  "safeConcurrency NaN = NaN" "safeConcurrency NegInfinity = Num 1"
  "safeConcurrency PosInfinity = Num 10"
  by (simp_all add: safeConcurrency_def MIN_CONCURRENCY_def MAX_CONCURRENCY_def)

lemma safeConcurrency_range:
  "c \<noteq> NaN \<Longrightarrow> \<exists>r. safeConcurrency c = Num r \<and> 1 \<le> r \<and> r \<le> 10"
  by (cases c) (simp_all add: safeConcurrency_Num safeConcurrency_cases)

lemma safeConcurrency_idem: "safeConcurrency (safeConcurrency c) = safeConcurrency c"
  by (cases c) (simp_all add: safeConcurrency_Num safeConcurrency_cases)

lemma safeConcurrency_of_int:
  "safeConcurrency (Num (of_int c)) =
     Num (of_int (if c < 1 then 1 else if 10 < c then 10 else c))"
  by (simp add: safeConcurrency_Num)

lemma length_parse_items: "length (parse_items urls) = length urls"
  by (simp add: parse_items_def)

lemma ToLength_small: "0 \<le> r \<Longrightarrow> r \<le> 10 \<Longrightarrow> ToLength (Num r) = nat \<lfloor>r\<rfloor>"
proof -
  assume "0 \<le> r" "r \<le> 10"
  then have "\<lfloor>r\<rfloor> \<le> 10" by linarith
  then have "nat \<lfloor>r\<rfloor> \<le> 10" by linarith
  also have "(10 :: nat) \<le> 2 ^ 53 - 1" by simp
  finally show ?thesis by simp
qed

lemma workers_batchCopy_start_Num:
  assumes "safeConcurrency c = Num r" "1 \<le> r" "r \<le> 10"
  shows "workers (batchCopy_start urls t c) = replicate (min (nat \<lfloor>r\<rfloor>) (length urls)) AtLoopHead"
proof -
  have "ToLength (Num (min r (real (length urls)))) = nat \<lfloor>min r (real (length urls))\<rfloor>"
    using assms(2,3) by (intro ToLength_small) simp_all
  also have "\<lfloor>min r (real (length urls))\<rfloor> = min \<lfloor>r\<rfloor> (int (length urls))"
    by (simp add: min_def le_floor_iff floor_le_iff) linarith
  also have "nat (min \<lfloor>r\<rfloor> (int (length urls))) = min (nat \<lfloor>r\<rfloor>) (length urls)"
    using assms(2) by (simp add: min_def) linarith
  finally show ?thesis
    by (simp add: batchCopy_start_def Let_def length_parse_items assms(1))
qed

lemma workers_batchCopy_start_NaN: "workers (batchCopy_start urls t NaN) = []"
  by (simp add: batchCopy_start_def Let_def safeConcurrency_cases)

lemma workers_batchCopy_start:
  "length (workers (batchCopy_start urls t (Num (of_int c)))) =
     min (nat (if c < 1 then 1 else if 10 < c then 10 else c)) (length urls)"
proof -
  let ?k = "if c < 1 then 1 else if 10 < c then 10 else c"
  have "workers (batchCopy_start urls t (Num (of_int c))) =
      replicate (min (nat \<lfloor>real_of_int ?k\<rfloor>) (length urls)) AtLoopHead"
    by (rule workers_batchCopy_start_Num [OF safeConcurrency_of_int]) simp_all
  then show ?thesis by (simp only: floor_of_int length_replicate)
qed

lemma POST_task:
  assumes "POST e m body js = (fx, resp, js', Some s)"
  shows "\<exists>urls t. body_urls body = Some urls \<and>
     task s = batchCopy_start urls t
       (safeConcurrency (case body_concurrency body of None \<Rightarrow> DEFAULT_CONCURRENCY | Some c \<Rightarrow> c))"
  using assms
  by (auto simp: POST_def createJob_def Let_def safeConcurrency_def
      split: option.splits if_splits prod.splits sum.splits)

lemma batchCopy_start_safe:
  "batchCopy_start urls t (safeConcurrency c) = batchCopy_start urls t c"
  by (simp add: batchCopy_start_def safeConcurrency_idem)

lemma POST_response_concurrency:
  "fst (snd (POST e m (body\<lparr>body_concurrency := c\<rparr>) js)) =
   fst (snd (POST e m (body\<lparr>body_concurrency := c'\<rparr>) js))"
  by (auto simp: POST_def createJob_def Let_def getJob_def update_conv'
      split: option.splits if_splits prod.splits sum.splits)

text \<open>
  C3.  The concurrency that \<^verbatim>\<open>batchCopy\<close> uses is its integer input clamped into
  \<open>[1, 10]\<close>: 0 gives 1 and 999 gives 10.  The number of workers started is the
  minimum of the clamped value and the number of items.  The request handler does not
  reject a value out of range: its answer is the same for every concurrency in the
  body, and the task it starts has that many workers.
\<close>

theorem safeConcurrency_clamps:
  "safeConcurrency (Num (of_int c)) =
     Num (of_int (if c < 1 then 1 else if 10 < c then 10 else c)) \<and>
   (1 :: int) \<le> (if c < 1 then 1 else if 10 < c then 10 else c) \<and>
   (if c < 1 then 1 else if 10 < c then 10 else c) \<le> (10 :: int) \<and>
   safeConcurrency (Num 0) = Num 1 \<and> safeConcurrency (Num 999) = Num 10 \<and>
   length (workers (batchCopy_start urls t (Num (of_int c)))) =
     min (nat (if c < 1 then 1 else if 10 < c then 10 else c)) (length urls) \<and>
   fst (snd (POST e m (body\<lparr>body_concurrency := Some x\<rparr>) js)) =
     fst (snd (POST e m (body\<lparr>body_concurrency := None\<rparr>) js)) \<and>
   (POST e m body js = (fx, resp, js', Some s) \<and> body_urls body = Some urls \<and>
    body_concurrency body = Some (Num (of_int c)) \<longrightarrow>
      length (workers (task s)) =
        min (nat (if c < 1 then 1 else if 10 < c then 10 else c)) (length urls))"
proof (intro conjI impI)
  show "safeConcurrency (Num (of_int c)) =
     Num (of_int (if c < 1 then 1 else if 10 < c then 10 else c))"
    by (rule safeConcurrency_of_int)
  show "(1 :: int) \<le> (if c < 1 then 1 else if 10 < c then 10 else c)"
    "(if c < 1 then 1 else if 10 < c then 10 else c) \<le> (10 :: int)"
    by simp_all
  show "safeConcurrency (Num 0) = Num 1" "safeConcurrency (Num 999) = Num 10"
    by (simp_all add: safeConcurrency_Num)
  show "length (workers (batchCopy_start urls t (Num (of_int c)))) =
     min (nat (if c < 1 then 1 else if 10 < c then 10 else c)) (length urls)"
    by (rule workers_batchCopy_start)
  show "fst (snd (POST e m (body\<lparr>body_concurrency := Some x\<rparr>) js)) =
     fst (snd (POST e m (body\<lparr>body_concurrency := None\<rparr>) js))"
    by (rule POST_response_concurrency)
next
  assume a: "POST e m body js = (fx, resp, js', Some s) \<and> body_urls body = Some urls \<and>
    body_concurrency body = Some (Num (of_int c))"
  with POST_task [of e m body js fx resp js' s] obtain t where
    "task s = batchCopy_start urls t (safeConcurrency (Num (of_int c)))"
    by auto
  then show "length (workers (task s)) =
      min (nat (if c < 1 then 1 else if 10 < c then 10 else c)) (length urls)"
    by (simp only: batchCopy_start_safe workers_batchCopy_start)
qed

lemma POST_body_two:
  "\<exists>fx resp js' s. POST env_ok moment_ok body_two [] = (fx, resp, js', Some s)"
  by (simp add: POST_def body_two_def createJob_def Let_def or_else_def getJob_def str_def)

theorem safeConcurrency_clamps_witness:
  "snd (snd (snd (POST env_ok moment_ok body_two []))) \<noteq> None \<and>
   body_urls body_two =
     Some [str ''https://drive.google.com/file/d/AAAA/view'', str ''not-a-url''] \<and>
   body_concurrency body_two = Some (Num 999) \<and>
   safeConcurrency (Num 999) = Num 10 \<and>
   length (workers (task (the (snd (snd (snd (POST env_ok moment_ok body_two []))))))) = 2"
proof -
  from POST_body_two obtain fx resp js' s where
    p: "POST env_ok moment_ok body_two [] = (fx, resp, js', Some s)"
    by blast
  have b: "body_urls body_two =
       Some [str ''https://drive.google.com/file/d/AAAA/view'', str ''not-a-url'']"
    "body_concurrency body_two = Some (Num (of_int 999))"
    by (simp_all add: body_two_def)
  from safeConcurrency_clamps
    [where c = 999 and e = env_ok and m = moment_ok and body = body_two and js = "[]" and
      fx = fx and resp = resp and js' = js' and s = s and
      urls = "[str ''https://drive.google.com/file/d/AAAA/view'', str ''not-a-url'']"] p b
  have "safeConcurrency (Num 999) = Num 10" "length (workers (task s)) = 2"
    by simp_all
  with p b show ?thesis by simp
qed

section \<open>The job registry\<close>

lemma clearOldJobs_loop_eq:
  "clearOldJobs_loop now maxAgeMs es js c =
     (c + length (filter (\<lambda>(jobId, job). job_status job = JobComplete \<and> now - createdAt job > maxAgeMs) es),
      filter (\<lambda>(k, j). k \<notin> fst ` set (filter (\<lambda>(jobId, job). job_status job = JobComplete \<and> now - createdAt job > maxAgeMs) es)) js)"
proof (induction es arbitrary: js c)
  case Nil
  then show ?case by simp
next
  case (Cons a es)
  obtain jobId job where a: "a = (jobId, job)" by (cases a)
  show ?case
  proof (cases "job_status job = JobComplete \<and> now - createdAt job > maxAgeMs")
    case True
    have "filter (\<lambda>(k, j). k \<notin> fst ` set (filter (\<lambda>(jobId, job). job_status job = JobComplete \<and> now - createdAt job > maxAgeMs) es))
            (AList.delete jobId js) =
          filter (\<lambda>(k, j). k \<noteq> jobId \<and> k \<notin> fst ` set (filter (\<lambda>(jobId, job). job_status job = JobComplete \<and> now - createdAt job > maxAgeMs) es)) js"
      by (induction js) auto
    with True show ?thesis
      by (simp add: a Cons.IH Let_def)
  next
    case False
    then show ?thesis
      by (auto simp add: a Cons.IH Let_def)
  qed
qed

lemma filter_keys_distinct:
  assumes "distinct (map fst js)"
  shows "filter (\<lambda>(k, j). k \<notin> fst ` set (filter P js)) js = filter (\<lambda>e. \<not> P e) js"
proof (rule filter_cong [OF refl])
  fix e assume e: "e \<in> set js"
  obtain k j where kj: "e = (k, j)" by (cases e)
  have "k \<in> fst ` set (filter P js) \<longleftrightarrow> P (k, j)"
  proof
    assume "k \<in> fst ` set (filter P js)"
    then obtain j' where j': "(k, j') \<in> set js" "P (k, j')" by auto
    from assms e j'(1) have "j' = j" unfolding kj by (rule_tac eq_key_imp_eq_value)
    with j'(2) show "P (k, j)" by simp
  next
    assume "P (k, j)"
    with e kj show "k \<in> fst ` set (filter P js)" by force
  qed
  then show "(case e of (k, j) \<Rightarrow> k \<notin> fst ` set (filter P js)) = (\<not> P e)"
    by (simp add: kj)
qed

lemma clearOldJobs_eq:
  assumes "distinct (map fst js)"
  shows "clearOldJobs now maxAgeMs js =
     (length (filter (\<lambda>(jobId, job). job_status job = JobComplete \<and> now - createdAt job > maxAgeMs) js),
      filter (\<lambda>e. \<not> (case e of (jobId, job) \<Rightarrow> job_status job = JobComplete \<and> now - createdAt job > maxAgeMs)) js)"
  unfolding clearOldJobs_def clearOldJobs_loop_eq filter_keys_distinct [OF assms] by simp

text \<open>
  C5 as the code has it.  \<^verbatim>\<open>clearOldJobs\<close> removes exactly the jobs whose status is
  complete and whose age exceeds \<open>maxAgeMs\<close>, and returns their number; a job whose
  status is processing or error stays, whatever its age.  (The keys of a \<^verbatim>\<open>Map\<close> are
  distinct.)
\<close>

theorem clearOldJobs_removes_old_complete:
  "distinct (map fst js) \<longrightarrow>
     clearOldJobs now maxAgeMs js =
       (length (filter (\<lambda>(jobId, job). job_status job = JobComplete \<and>
                           now - createdAt job > maxAgeMs) js),
        filter (\<lambda>(jobId, job). \<not> (job_status job = JobComplete \<and>
                           now - createdAt job > maxAgeMs)) js) \<and>
     (\<forall>(jobId, job) \<in> set js.
        job_status job = JobProcessing \<or> job_status job = JobError \<longrightarrow>
          (jobId, job) \<in> set (snd (clearOldJobs now maxAgeMs js)))"
proof
  assume d: "distinct (map fst js)"
  have eq: "(\<lambda>e. \<not> (case e of (jobId, job) \<Rightarrow> job_status job = JobComplete \<and> now - createdAt job > maxAgeMs)) =
            (\<lambda>(jobId, job). \<not> (job_status job = JobComplete \<and> now - createdAt job > maxAgeMs))"
    by auto
  have 1: "clearOldJobs now maxAgeMs js =
       (length (filter (\<lambda>(jobId, job). job_status job = JobComplete \<and>
                           now - createdAt job > maxAgeMs) js),
        filter (\<lambda>(jobId, job). \<not> (job_status job = JobComplete \<and>
                           now - createdAt job > maxAgeMs)) js)"
    using clearOldJobs_eq [OF d, of now maxAgeMs] unfolding eq .
  have 2: "\<forall>(jobId, job) \<in> set js.
        job_status job = JobProcessing \<or> job_status job = JobError \<longrightarrow>
          (jobId, job) \<in> set (snd (clearOldJobs now maxAgeMs js))"
    unfolding 1 by auto
  from 1 2 show "clearOldJobs now maxAgeMs js =
       (length (filter (\<lambda>(jobId, job). job_status job = JobComplete \<and>
                           now - createdAt job > maxAgeMs) js),
        filter (\<lambda>(jobId, job). \<not> (job_status job = JobComplete \<and>
                           now - createdAt job > maxAgeMs)) js) \<and>
     (\<forall>(jobId, job) \<in> set js.
        job_status job = JobProcessing \<or> job_status job = JobError \<longrightarrow>
          (jobId, job) \<in> set (snd (clearOldJobs now maxAgeMs js)))"
    by (rule conjI)
qed

lemma three_jobs_facts:
  "distinct (map fst three_jobs)"
  "filter (\<lambda>(jobId, job). job_status job = JobComplete \<and> 1000 - createdAt job > 10) three_jobs =
     [(str ''copy_0_b'', job_done)]"
  "filter (\<lambda>(jobId, job). \<not> (job_status job = JobComplete \<and> 1000 - createdAt job > 10)) three_jobs =
     [(str ''copy_0_a'', job_failed), (str ''copy_0_c'', job_running)]"
  by (simp_all add: three_jobs_def job_failed_def job_done_def job_running_def str_def)

theorem clearOldJobs_removes_old_complete_witness:
  "distinct (map fst three_jobs) \<and>
   clearOldJobs 1000 10 three_jobs =
     (1, [(str ''copy_0_a'', job_failed), (str ''copy_0_c'', job_running)])"
  using clearOldJobs_removes_old_complete [of three_jobs 1000 10] three_jobs_facts
  by simp

text \<open>
  C5 as the claim states it fails: the job \<open>job_failed\<close> has the terminal status error
  and is older than \<open>maxAgeMs\<close>, and \<^verbatim>\<open>clearOldJobs\<close> keeps it.
\<close>

theorem clearOldJobs_keeps_old_error_job:
  "job_status job_failed = JobError \<and> 1000 - createdAt job_failed > 10 \<and>
   clearOldJobs 1000 10 three_jobs =
     (1, [(str ''copy_0_a'', job_failed), (str ''copy_0_c'', job_running)])"
  by (simp add: clearOldJobs_def three_jobs_def job_failed_def job_done_def job_running_def
      str_def)

subsection \<open>Callbacks for a job that is gone\<close>

lemma map_of_deleteJob: "map_of (snd (deleteJob jobId js)) jobId = None"
  by (simp add: deleteJob_def delete_conv')

lemma updateJobItem_absent: "map_of js jobId = None \<Longrightarrow> updateJobItem jobId i u js = js"
  by (simp add: updateJobItem_def)

lemma updateJobItem_no_item:
  "map_of js jobId = Some job \<Longrightarrow> length (items job) \<le> i \<Longrightarrow> updateJobItem jobId i u js = js"
  by (simp add: updateJobItem_def)

lemma processJob_continue_absent:
  "map_of js jobId = None \<Longrightarrow> processJob_continue jobId out js = js"
  by (simp add: processJob_continue_def)

lemma worker_step_absent:
  "map_of (jobs s) jobId = None \<Longrightarrow> jobs (worker_step e answers jobId w s) = jobs s"
  by (auto simp: worker_step_def Let_def onProgress_job_def updateJobItem_absent
      split: worker.splits list.splits prod.splits)

lemma settle_step_absent:
  "map_of (jobs s) jobId = None \<Longrightarrow> jobs (settle_step jobId s) = jobs s"
  by (simp add: settle_step_def processJob_continue_absent)

lemma run_absent:
  "map_of (jobs s) jobId = None \<Longrightarrow> list_all task_action acts \<Longrightarrow>
   jobs (run e answers jobId acts s) = jobs s"
proof (induction acts arbitrary: s)
  case Nil
  then show ?case by simp
next
  case (Cons a acts)
  from Cons.prems have j: "jobs (step e answers jobId a s) = jobs s"
    by (cases a) (simp_all add: worker_step_absent settle_step_absent)
  with Cons.prems have "jobs (run e answers jobId acts (step e answers jobId a s)) =
      jobs (step e answers jobId a s)"
    by (intro Cons.IH) simp_all
  with j show ?case by simp
qed

text \<open>
  C8.  Once \<^verbatim>\<open>deleteJob\<close> has removed the job, the progress callback for its id
  (\<^verbatim>\<open>updateJobItem\<close>) and the continuation of \<^verbatim>\<open>processJob\<close> return without changing
  the job map, and so does every further step of the workers of its task.  The same holds
  for any id that is not in the map, and for an index that has no item in the job.  The
  functions have no failing branch: the guard returns before the item is touched.
\<close>

theorem updateJobItem_after_deleteJob:
  "updateJobItem jobId i u (snd (deleteJob jobId js)) = snd (deleteJob jobId js) \<and>
   onProgress_job jobId ev (snd (deleteJob jobId js)) = snd (deleteJob jobId js) \<and>
   processJob_continue jobId out (snd (deleteJob jobId js)) = snd (deleteJob jobId js) \<and>
   (map_of js1 j1 = None \<longrightarrow> updateJobItem j1 i u js1 = js1) \<and>
   (map_of js2 j2 = Some job \<and> length (items job) \<le> i \<longrightarrow> updateJobItem j2 i u js2 = js2) \<and>
   (list_all task_action acts \<longrightarrow>
      jobs (run e answers jobId acts (s\<lparr>jobs := snd (deleteJob jobId (jobs s))\<rparr>)) =
        snd (deleteJob jobId (jobs s)))"
proof (intro conjI impI)
  show "updateJobItem jobId i u (snd (deleteJob jobId js)) = snd (deleteJob jobId js)"
    by (rule updateJobItem_absent [OF map_of_deleteJob])
  show "onProgress_job jobId ev (snd (deleteJob jobId js)) = snd (deleteJob jobId js)"
    unfolding onProgress_job_def by (rule updateJobItem_absent [OF map_of_deleteJob])
  show "processJob_continue jobId out (snd (deleteJob jobId js)) = snd (deleteJob jobId js)"
    by (rule processJob_continue_absent [OF map_of_deleteJob])
next
  assume "map_of js1 j1 = None"
  then show "updateJobItem j1 i u js1 = js1" by (rule updateJobItem_absent)
next
  assume "map_of js2 j2 = Some job \<and> length (items job) \<le> i"
  then show "updateJobItem j2 i u js2 = js2" by (simp add: updateJobItem_no_item)
next
  assume a: "list_all task_action acts"
  have "map_of (jobs (s\<lparr>jobs := snd (deleteJob jobId (jobs s))\<rparr>)) jobId = None"
    by (simp add: map_of_deleteJob)
  from run_absent [OF this a, of e answers]
  show "jobs (run e answers jobId acts (s\<lparr>jobs := snd (deleteJob jobId (jobs s))\<rparr>)) =
        snd (deleteJob jobId (jobs s))"
    by simp
qed

theorem updateJobItem_after_deleteJob_witness:
  "map_of three_jobs (str ''copy_0_z'') = None \<and>
   updateJobItem (str ''copy_0_z'') 0
     \<lparr>upd_status = ItemSuccess, upd_progress = 100, upd_message = str ''Copied: a.txt''\<rparr>
     three_jobs = three_jobs \<and>
   map_of three_jobs (str ''copy_0_a'') = Some job_failed \<and> length (items job_failed) \<le> 0 \<and>
   updateJobItem (str ''copy_0_a'') 0
     \<lparr>upd_status = ItemSuccess, upd_progress = 100, upd_message = str ''Copied: a.txt''\<rparr>
     three_jobs = three_jobs \<and>
   list_all task_action [Worker 0, Worker 1, Worker 0, Worker 0, Worker 1, Settle] \<and>
   jobs (run env_ok answers_fault (str ''copy_7_k3x9'')
           [Worker 0, Worker 1, Worker 0, Worker 0, Worker 1, Settle]
           (system_two\<lparr>jobs := snd (deleteJob (str ''copy_7_k3x9'') (jobs system_two))\<rparr>)) =
     snd (deleteJob (str ''copy_7_k3x9'') (jobs system_two))"
proof -
  have 1: "map_of three_jobs (str ''copy_0_z'') = None"
    "map_of three_jobs (str ''copy_0_a'') = Some job_failed" "length (items job_failed) \<le> 0"
    by (simp_all add: three_jobs_def str_def job_failed_def)
  have 2: "list_all task_action [Worker 0, Worker 1, Worker 0, Worker 0, Worker 1, Settle]"
    by simp
  show ?thesis
    using 1 2
      updateJobItem_after_deleteJob
        [of "str ''copy_7_k3x9''" 0
          "\<lparr>upd_status = ItemSuccess, upd_progress = 100, upd_message = str ''Copied: a.txt''\<rparr>"
          "jobs system_two" _ _ three_jobs "str ''copy_0_z''" three_jobs "str ''copy_0_a''"
          job_failed "[Worker 0, Worker 1, Worker 0, Worker 0, Worker 1, Settle]" env_ok
          answers_fault system_two]
    by simp
qed

section \<open>The Drive service\<close>

lemma made_public_append:
  "made_public a i \<or> made_public b i \<Longrightarrow> made_public (a @ b) i"
  by (auto simp: made_public_def)

lemma all_public_append: "all_public a \<Longrightarrow> all_public b \<Longrightarrow> all_public (a @ b)"
  unfolding all_public_def list_all_iff
  by (auto split: option.splits intro: made_public_append)

lemma all_public_Nil: "all_public []"
  by (simp add: all_public_def)

lemma createFolder_Inr:
  assumes "createFolder e ca pa name parent = (fx, Inr fid)"
  shows "fx = [FolderCreated name parent fid, PermissionCreated fid (str ''reader'') (str ''anyone'')]"
  using assms
  by (auto simp: createFolder_def Let_def split: option.splits response.splits if_splits)

lemma createFolder_public:
  "createFolder e ca pa name parent = (fx, Inr fid) \<Longrightarrow> all_public fx \<and> made_public fx fid"
  by (drule createFolder_Inr) (simp add: all_public_def made_public_def)

lemma copyFile_Inr:
  assumes "copyFile e r src tgt newName onP = (fx, evs, Inr res)"
  shows "\<exists>name. fx = [FileCopied src name tgt (file_id res),
                      PermissionCreated (file_id res) (str ''reader'') (str ''anyone'')]"
  using assms
  by (auto simp: copyFile_def Let_def split: option.splits response.splits sum.splits)

lemma copyFile_public:
  "copyFile e r src tgt newName onP = (fx, evs, Inr res) \<Longrightarrow>
   all_public fx \<and> made_public fx (file_id res)"
  by (drule copyFile_Inr) (auto simp: all_public_def made_public_def)

lemma listFilesInFolder_Inr:
  "listFilesInFolder e r src = Inr files \<Longrightarrow> files_list r = Resolves files"
  by (simp add: listFilesInFolder_def split: option.splits response.splits)

lemma copyFolder_results:
  fixes onP :: "(nat \<times> nat \<times> jsstring \<Rightarrow> 'ev) option"
  shows "(\<forall>fx evs res. copyFolder e r src tgt newName onP = (fx, evs, Inr res) \<longrightarrow>
            all_public fx \<and> made_public fx (folder_id res) \<and>
            (\<exists>files. files_list r = Resolves files \<and> filesCopied res = length files))"
    and "(\<forall>fx evs m. copyFolder_loop e nf onP len i files n = (fx, evs, Inr m) \<longrightarrow>
            all_public fx \<and> m = n + length files)"
proof (induction e r src tgt newName onP and e nf onP len i files n
    rule: copyFolder_copyFolder_loop.induct)
  case (1 e r sourceFolderId targetParentId newName onProgress)
  show ?case
  proof (intro allI impI)
    fix fx evs res
    assume a: "copyFolder e r sourceFolderId targetParentId newName onProgress = (fx, evs, Inr res)"
    from a obtain sourceFolder fx1 newFolderId files fx2 n where
      i: "initialize_error e = None" and
      g: "getFileMetadata e r sourceFolderId = Inr sourceFolder" and
      c: "createFolder e (files_create r) (permissions_create r)
            (or_else newName (meta_name sourceFolder)) (Some targetParentId) = (fx1, Inr newFolderId)" and
      l: "listFilesInFolder e r sourceFolderId = Inr files" and
      lp: "copyFolder_loop e newFolderId onProgress (length files) 0 files 0 = (fx2, evs, Inr n)" and
      r: "fx = fx1 @ fx2" "filesCopied res = n" "folder_id res = newFolderId"
      by (auto simp: copyFolder.simps Let_def split: option.splits sum.splits prod.splits)
    from "1.IH" [OF i g refl c [symmetric] refl l] lp
    have "all_public fx2" "n = length files" by auto
    moreover from createFolder_public [OF c] have "all_public fx1" "made_public fx1 newFolderId"
      by simp_all
    ultimately show "all_public fx \<and> made_public fx (folder_id res) \<and>
         (\<exists>files. files_list r = Resolves files \<and> filesCopied res = length files)"
      using r listFilesInFolder_Inr [OF l]
      by (auto intro: all_public_append made_public_append)
  qed
next
  case (2 e newFolderId onProgress len i n)
  then show ?case by (simp add: all_public_Nil)
next
  case (3 e newFolderId onProgress len i f0 r rest n)
  show ?case
  proof (intro allI impI)
    fix fx evs m
    assume a: "copyFolder_loop e newFolderId onProgress len i ((f0, r) # rest) n = (fx, evs, Inr m)"
    show "all_public fx \<and> m = n + length ((f0, r) # rest)"
    proof (cases "meta_mimeType f0 = MIME_TYPES_FOLDER")
      case True
      obtain fxa evs0 oa where
        f: "copyFolder e r (meta_id f0) newFolderId (Some (meta_name f0))
              (None :: (nat \<times> nat \<times> jsstring \<Rightarrow> 'ev) option) = (fxa, evs0, oa)"
        using prod_cases3 by blast
      obtain fxb evsb ob where
        lp: "copyFolder_loop e newFolderId onProgress len (i + 1) rest (n + 1) = (fxb, evsb, ob)"
        using prod_cases3 by blast
      from a True f lp obtain res where r: "oa = Inr res" "ob = Inr m" "fx = fxa @ fxb"
        by (cases oa) (auto simp: Let_def)
      note f = f [unfolded r(1)] and lp = lp [unfolded r(2)]
      from "3.IH"(1) [OF refl True] f have "all_public fxa" by blast
      moreover from "3.IH"(2) [OF refl True f [symmetric] refl refl] lp
      have "all_public fxb" "m = n + 1 + length rest" by auto
      ultimately show ?thesis using r(3) by (simp add: all_public_append)
    next
      case False
      obtain fxa evs0 oa where
        f: "copyFile e r (meta_id f0) newFolderId None (None :: (int \<Rightarrow> 'ev) option) = (fxa, evs0, oa)"
        using prod_cases3 by blast
      obtain fxb evsb ob where
        lp: "copyFolder_loop e newFolderId onProgress len (i + 1) rest (n + 1) = (fxb, evsb, ob)"
        using prod_cases3 by blast
      from a False f lp obtain res where r: "oa = Inr res" "ob = Inr m" "fx = fxa @ fxb"
        by (cases oa) (auto simp: Let_def)
      note f = f [unfolded r(1)] and lp = lp [unfolded r(2)]
      from copyFile_public [OF f] have "all_public fxa" by simp
      moreover from "3.IH"(3) [OF refl False f [symmetric] refl refl] lp
      have "all_public fxb" "m = n + 1 + length rest" by auto
      ultimately show ?thesis using r(3) by (simp add: all_public_append)
    qed
  qed
qed

lemma copyFile_file_ok:
  "copyFile env_ok file_ok (str ''AAAA'') (str ''T1'') None (None :: (int \<Rightarrow> unit) option) =
     ([FileCopied (str ''AAAA'') (str ''a.txt'') (str ''T1'') (str ''N1''),
       PermissionCreated (str ''N1'') (str ''reader'') (str ''anyone'')],
      [],
      Inr \<lparr>file_id = str ''N1'', file_name = str ''a.txt'', file_size = str ''12''\<rparr>)"
  by (simp add: copyFile_def env_ok_def file_ok_def plain_file_def getFileMetadata_def or_else_def
      progress_call_def Let_def str_def)

lemma copyFolder_folder_three:
  "fst (copyFolder env_ok folder_three (str ''FFF'') (str ''T1'') None
         (None :: (nat \<times> nat \<times> jsstring \<Rightarrow> unit) option)) =
     [FolderCreated (str ''docs'') (Some (str ''T1'')) (str ''N0''),
      PermissionCreated (str ''N0'') (str ''reader'') (str ''anyone''),
      FileCopied (str ''S2'') (str ''a.txt'') (str ''N0'') (str ''N2''),
      PermissionCreated (str ''N2'') (str ''reader'') (str ''anyone''),
      FileCopied (str ''S3'') (str ''b.txt'') (str ''N0'') (str ''N3''),
      PermissionCreated (str ''N3'') (str ''reader'') (str ''anyone''),
      FolderCreated (str ''sub'') (Some (str ''N0'')) (str ''N4''),
      PermissionCreated (str ''N4'') (str ''reader'') (str ''anyone''),
      FileCopied (str ''S5'') (str ''c.txt'') (str ''N4'') (str ''N5''),
      PermissionCreated (str ''N5'') (str ''reader'') (str ''anyone''),
      FileCopied (str ''S6'') (str ''d.txt'') (str ''N4'') (str ''N6''),
      PermissionCreated (str ''N6'') (str ''reader'') (str ''anyone'')]"
  "snd (snd (copyFolder env_ok folder_three (str ''FFF'') (str ''T1'') None
         (None :: (nat \<times> nat \<times> jsstring \<Rightarrow> unit) option))) =
     Inr \<lparr>folder_id = str ''N0'', folder_name = str ''docs'', filesCopied = 3\<rparr>"
  by code_simp+

lemma processItem_try_File:
  assumes "processItem_try e r t item = (fx, evs, Inr res)" "it_parsed item = Some p"
    "parsed_type p = File"
  shows "\<exists>evs' result.
     copyFile e r (parsed_id p) t None (Some (onFileProgress item)) = (fx, evs', Inr result) \<and>
     evs = progress_event (it_index item) ItemProcessing 0 (str ''Starting...'') # evs' @
           [progress_event (it_index item) ItemSuccess 100 (str ''Copied: '' @ file_name result)] \<and>
     res = \<lparr>res_url = it_url item, res_success = True, res_id = Some (file_id result),
            res_name = Some (file_name result), res_error = None\<rparr>"
  using assms
  by (auto simp: processItem_try_def Let_def split: sum.splits prod.splits)

lemma processItem_try_Folder:
  assumes "processItem_try e r t item = (fx, evs, Inr res)" "it_parsed item = Some p"
    "parsed_type p = Folder"
  shows "\<exists>evs' result.
     copyFolder e r (parsed_id p) t None (Some (onFolderProgress e item)) = (fx, evs', Inr result) \<and>
     evs = progress_event (it_index item) ItemProcessing 0 (str ''Starting...'') # evs' @
           [progress_event (it_index item) ItemSuccess 100
              (str ''Copied folder: '' @ folder_name result @ str '' ('' @
               digits (filesCopied result) @ str '' files)'')] \<and>
     res = \<lparr>res_url = it_url item, res_success = True, res_id = Some (folder_id result),
            res_name = Some (folder_name result), res_error = None\<rparr>"
  using assms
  by (auto simp: processItem_try_def Let_def split: sum.splits prod.splits)

lemma processItem_try_parsed:
  "processItem_try e r t item = (fx, evs, Inr res) \<Longrightarrow> \<exists>p. it_parsed item = Some p"
  by (cases "it_parsed item") (simp_all add: processItem_try_def)

lemma processItem_body_success:
  assumes "processItem_body e r t item = (fx, evs, res)" "res_success res"
  shows "processItem_try e r t item = (fx, evs, Inr res)"
  using assms
  by (auto simp: processItem_body_def Let_def split: sum.splits prod.splits)

lemma processItem_body_public:
  assumes "processItem_body e r t item = (fx, evs, res)" "res_success res"
  shows "all_public fx"
proof -
  note t = processItem_body_success [OF assms]
  from processItem_try_parsed [OF t] obtain p where p: "it_parsed item = Some p" by blast
  show ?thesis
  proof (cases "parsed_type p")
    case File
    from processItem_try_File [OF t p File] obtain evs' result where
      "copyFile e r (parsed_id p) t None (Some (onFileProgress item)) = (fx, evs', Inr result)"
      by blast
    then show ?thesis using copyFile_public by blast
  next
    case Folder
    from processItem_try_Folder [OF t p Folder] obtain evs' result where
      "copyFolder e r (parsed_id p) t None (Some (onFolderProgress e item)) = (fx, evs', Inr result)"
      by blast
    then show ?thesis using copyFolder_results(1) by blast
  qed
qed

lemma createJob_public:
  assumes "createJob e m urls tf tn c js = (fx, Inr (jobId, s))"
  shows "all_public fx"
proof (cases "or_else tf [] = []")
  case True
  with assms obtain fid where
    "createFolder e (create_answer m) (permission_answer m)
       (or_else tn (str ''Copied_'' @ iso_date m)) None = (fx, Inr fid)"
    by (auto simp: createJob_def Let_def split: prod.splits sum.splits)
  then show ?thesis using createFolder_public by blast
next
  case False
  with assms have "fx = []"
    by (auto simp: createJob_def Let_def split: prod.splits sum.splits)
  then show ?thesis by (simp add: all_public_Nil)
qed

lemma createFolder_moment_ok:
  "createFolder env_ok (Resolves (Some (str ''F1''))) (Resolves ()) (str ''Copied_2024-01-01'') None =
     ([FolderCreated (str ''Copied_2024-01-01'') None (str ''F1''),
       PermissionCreated (str ''F1'') (str ''reader'') (str ''anyone'')],
      Inr (str ''F1''))"
  by (simp add: createFolder_def env_ok_def or_else_def Let_def str_def)

lemma processItem_body_folder_three:
  "res_success (snd (snd (processItem_body env_ok folder_three (str ''T1'') item_folder)))"
  "it_parsed item_folder = Some \<lparr>parsed_id = str ''FFF'', parsed_type = Folder\<rparr>"
  "files_list folder_three =
     Resolves
       [(\<lparr>meta_id = str ''S2'', meta_name = str ''a.txt'', meta_mimeType = str ''text/plain''\<rparr>,
         plain_file ''a.txt'' ''N2''),
        (\<lparr>meta_id = str ''S3'', meta_name = str ''b.txt'', meta_mimeType = str ''text/plain''\<rparr>,
         plain_file ''b.txt'' ''N3''),
        (\<lparr>meta_id = str ''S4'', meta_name = str ''sub'', meta_mimeType = MIME_TYPES_FOLDER\<rparr>,
         subfolder_two)]"
  by code_simp+

text \<open>
  C9 as the code has it.  A call of \<^verbatim>\<open>copyFile\<close> or of \<^verbatim>\<open>createFolder\<close> that returns has created the
  permission \<^verbatim>\<open>{ role: 'reader', type: 'anyone' }\<close> on the file or folder it made.  A
  call of \<^verbatim>\<open>copyFolder\<close> that returns, and the processing of an item that ends in
  success, have done so for every file and folder they created, at every depth.
\<close>

theorem created_resources_made_public:
  fixes onFile :: "(int \<Rightarrow> 'a) option" and onFolder :: "(nat \<times> nat \<times> jsstring \<Rightarrow> 'b) option"
  shows
  "(copyFile e r1 s1 t1 n1 onFile = (fx1, evs1, Inr res1) \<longrightarrow>
      made_public fx1 (file_id res1) \<and> all_public fx1) \<and>
   (createFolder e ca pa name parent = (fx2, Inr fid) \<longrightarrow>
      made_public fx2 fid \<and> all_public fx2) \<and>
   (copyFolder e r3 s3 t3 n3 onFolder = (fx3, evs3, Inr res3) \<longrightarrow>
      made_public fx3 (folder_id res3) \<and> all_public fx3) \<and>
   (processItem_body e r4 t4 item = (fx4, evs4, res4) \<and> res_success res4 \<longrightarrow> all_public fx4)"
proof (intro conjI impI)
  assume "copyFile e r1 s1 t1 n1 onFile = (fx1, evs1, Inr res1)"
  from copyFile_public [OF this] show "made_public fx1 (file_id res1)" "all_public fx1"
    by simp_all
next
  assume "createFolder e ca pa name parent = (fx2, Inr fid)"
  from createFolder_public [OF this] show "made_public fx2 fid" "all_public fx2"
    by simp_all
next
  assume "copyFolder e r3 s3 t3 n3 onFolder = (fx3, evs3, Inr res3)"
  with copyFolder_results(1) [of e r3 s3 t3 n3 onFolder]
  show "made_public fx3 (folder_id res3)" "all_public fx3"
    by blast+
next
  assume "processItem_body e r4 t4 item = (fx4, evs4, res4) \<and> res_success res4"
  then show "all_public fx4" using processItem_body_public by blast
qed

theorem created_resources_made_public_witness:
  "copyFile env_ok file_ok (str ''AAAA'') (str ''T1'') None (None :: (int \<Rightarrow> unit) option) =
     ([FileCopied (str ''AAAA'') (str ''a.txt'') (str ''T1'') (str ''N1''),
       PermissionCreated (str ''N1'') (str ''reader'') (str ''anyone'')],
      [],
      Inr \<lparr>file_id = str ''N1'', file_name = str ''a.txt'', file_size = str ''12''\<rparr>) \<and>
   made_public
     [FileCopied (str ''AAAA'') (str ''a.txt'') (str ''T1'') (str ''N1''),
      PermissionCreated (str ''N1'') (str ''reader'') (str ''anyone'')] (str ''N1'') \<and>
   createFolder env_ok (Resolves (Some (str ''F1''))) (Resolves ()) (str ''Copied_2024-01-01'') None =
     ([FolderCreated (str ''Copied_2024-01-01'') None (str ''F1''),
       PermissionCreated (str ''F1'') (str ''reader'') (str ''anyone'')],
      Inr (str ''F1'')) \<and>
   made_public
     [FolderCreated (str ''Copied_2024-01-01'') None (str ''F1''),
      PermissionCreated (str ''F1'') (str ''reader'') (str ''anyone'')] (str ''F1'') \<and>
   snd (snd (copyFolder env_ok folder_three (str ''FFF'') (str ''T1'') None
         (None :: (nat \<times> nat \<times> jsstring \<Rightarrow> unit) option))) =
     Inr \<lparr>folder_id = str ''N0'', folder_name = str ''docs'', filesCopied = 3\<rparr> \<and>
   all_public (fst (copyFolder env_ok folder_three (str ''FFF'') (str ''T1'') None
         (None :: (nat \<times> nat \<times> jsstring \<Rightarrow> unit) option))) \<and>
   res_success (snd (snd (processItem_body env_ok folder_three (str ''T1'') item_folder))) \<and>
   all_public (fst (processItem_body env_ok folder_three (str ''T1'') item_folder))"
proof -
  let ?F = "copyFolder env_ok folder_three (str ''FFF'') (str ''T1'') None
         (None :: (nat \<times> nat \<times> jsstring \<Rightarrow> unit) option)"
  let ?P = "processItem_body env_ok folder_three (str ''T1'') item_folder"
  have F: "?F = (fst ?F, fst (snd ?F),
      Inr \<lparr>folder_id = str ''N0'', folder_name = str ''docs'', filesCopied = 3\<rparr>)"
    using copyFolder_folder_three(2) by (metis prod.collapse)
  have P: "?P = (fst ?P, fst (snd ?P), snd (snd ?P))" by simp
  note t = created_resources_made_public
    [of env_ok file_ok "str ''AAAA''" "str ''T1''" None "None :: (int \<Rightarrow> unit) option"
      "[FileCopied (str ''AAAA'') (str ''a.txt'') (str ''T1'') (str ''N1''),
        PermissionCreated (str ''N1'') (str ''reader'') (str ''anyone'')]"
      "[]" "\<lparr>file_id = str ''N1'', file_name = str ''a.txt'', file_size = str ''12''\<rparr>"
      "Resolves (Some (str ''F1''))" "Resolves ()" "str ''Copied_2024-01-01''" None
      "[FolderCreated (str ''Copied_2024-01-01'') None (str ''F1''),
        PermissionCreated (str ''F1'') (str ''reader'') (str ''anyone'')]"
      "str ''F1''"
      folder_three "str ''FFF''" "str ''T1''" None
      "None :: (nat \<times> nat \<times> jsstring \<Rightarrow> unit) option"
      "fst ?F" "fst (snd ?F)"
      "\<lparr>folder_id = str ''N0'', folder_name = str ''docs'', filesCopied = 3\<rparr>"
      folder_three "str ''T1''" item_folder "fst ?P" "fst (snd ?P)" "snd (snd ?P)"]
  from t copyFile_file_ok have c1: "made_public
     [FileCopied (str ''AAAA'') (str ''a.txt'') (str ''T1'') (str ''N1''),
      PermissionCreated (str ''N1'') (str ''reader'') (str ''anyone'')] (str ''N1'')"
    by simp
  from t createFolder_moment_ok have c2: "made_public
     [FolderCreated (str ''Copied_2024-01-01'') None (str ''F1''),
      PermissionCreated (str ''F1'') (str ''reader'') (str ''anyone'')] (str ''F1'')"
    by simp
  from t F have c3: "all_public (fst ?F)" by blast
  from t P processItem_body_folder_three(1) have c4: "all_public (fst ?P)" by blast
  from c1 c2 c3 c4 copyFile_file_ok createFolder_moment_ok copyFolder_folder_three(2)
    processItem_body_folder_three(1)
  show ?thesis by (intro conjI)
qed


text \<open>
  C9 as the claim states it fails: when \<^verbatim>\<open>permissions.create\<close> is rejected,
  \<^verbatim>\<open>copyFile\<close> and \<^verbatim>\<open>createFolder\<close> throw, and the file that was copied, or the
  folder that was created, stays on the Drive without the permission.
\<close>

theorem created_resource_left_private:
  "copyFile env_ok file_permission_fault (str ''AAAA'') (str ''T1'') None
     (None :: (int \<Rightarrow> unit) option) =
     ([FileCopied (str ''AAAA'') (str ''a.txt'') (str ''T1'') (str ''N1'')], [],
      Inl (AppError (str ''Failed to copy file''))) \<and>
   \<not> made_public [FileCopied (str ''AAAA'') (str ''a.txt'') (str ''T1'') (str ''N1'')]
       (str ''N1'') \<and>
   createFolder env_ok (Resolves (Some (str ''F1''))) (Rejects (str ''Insufficient permissions''))
     (str ''Copied_2024-01-01'') None =
     ([FolderCreated (str ''Copied_2024-01-01'') None (str ''F1'')],
      Inl (AppError (str ''Failed to create folder''))) \<and>
   \<not> made_public [FolderCreated (str ''Copied_2024-01-01'') None (str ''F1'')] (str ''F1'')"
  by (simp add: copyFile_def createFolder_def env_ok_def file_permission_fault_def
      getFileMetadata_def or_else_def progress_call_def made_public_def str_def Let_def)

lemma copyFolder_filesCopied:
  assumes "copyFolder e r s t n onP = (fx, evs, Inr res)" "files_list r = Resolves files"
  shows "filesCopied res = length files"
  using copyFolder_results(1) [of e r s t n onP] assms by auto

lemma processItem_body_folder_message:
  assumes b: "processItem_body e r t item = (fx, evs, res)" and s: "res_success res"
    and p: "it_parsed item = Some p" "parsed_type p = Folder"
    and l: "files_list r = Resolves files"
  shows "last evs = progress_event (it_index item) ItemSuccess 100
           (str ''Copied folder: '' @ the (res_name res) @ str '' ('' @ digits (length files) @
            str '' files)'')"
proof -
  from processItem_try_Folder [OF processItem_body_success [OF b s] p]
  obtain evs' result where
    c: "copyFolder e r (parsed_id p) t None (Some (onFolderProgress e item)) = (fx, evs', Inr result)"
    and e: "evs = progress_event (it_index item) ItemProcessing 0 (str ''Starting...'') # evs' @
           [progress_event (it_index item) ItemSuccess 100
              (str ''Copied folder: '' @ folder_name result @ str '' ('' @
               digits (filesCopied result) @ str '' files)'')]"
    and r: "res = \<lparr>res_url = it_url item, res_success = True, res_id = Some (folder_id result),
            res_name = Some (folder_name result), res_error = None\<rparr>"
    by blast
  from copyFolder_filesCopied [OF c l] e r show ?thesis by simp
qed

text \<open>
  C10.  When \<^verbatim>\<open>copyFolder\<close> returns, \<^verbatim>\<open>filesCopied\<close> is the number of entries that the
  listing of the source folder gave: its direct children, a subfolder counting as one.
  The last event of a folder item that succeeds is the success event whose message
  carries this number.  It is not the number of files copied at all depths: the folder
  \<open>folder_three\<close> has two files and a subfolder with two files; four files are copied
  and \<^verbatim>\<open>filesCopied\<close> is 3.
\<close>

theorem filesCopied_counts_direct_children:
  fixes onFolder :: "(nat \<times> nat \<times> jsstring \<Rightarrow> 'b) option"
  shows
  "(copyFolder e r s t n onFolder = (fx, evs, Inr res) \<and> files_list r = Resolves files \<longrightarrow>
      filesCopied res = length files) \<and>
   (processItem_body e r' t' item = (fx', evs', res') \<and> res_success res' \<and>
    it_parsed item = Some p \<and> parsed_type p = Folder \<and> files_list r' = Resolves files' \<longrightarrow>
      last evs' = progress_event (it_index item) ItemSuccess 100
         (str ''Copied folder: '' @ the (res_name res') @ str '' ('' @ digits (length files') @
          str '' files)'')) \<and>
   snd (snd (copyFolder env_ok folder_three (str ''FFF'') (str ''T1'') None
         (None :: (nat \<times> nat \<times> jsstring \<Rightarrow> unit) option))) =
     Inr \<lparr>folder_id = str ''N0'', folder_name = str ''docs'', filesCopied = 3\<rparr> \<and>
   length (filter is_FileCopied
     (fst (copyFolder env_ok folder_three (str ''FFF'') (str ''T1'') None
         (None :: (nat \<times> nat \<times> jsstring \<Rightarrow> unit) option)))) = 4"
proof (intro conjI impI)
  assume "copyFolder e r s t n onFolder = (fx, evs, Inr res) \<and> files_list r = Resolves files"
  then show "filesCopied res = length files" using copyFolder_filesCopied by blast
next
  assume a: "processItem_body e r' t' item = (fx', evs', res') \<and> res_success res' \<and>
    it_parsed item = Some p \<and> parsed_type p = Folder \<and> files_list r' = Resolves files'"
  then show "last evs' = progress_event (it_index item) ItemSuccess 100
         (str ''Copied folder: '' @ the (res_name res') @ str '' ('' @ digits (length files') @
          str '' files)'')"
    using processItem_body_folder_message [of e r' t' item fx' evs' res' p files'] by blast
next
  show "snd (snd (copyFolder env_ok folder_three (str ''FFF'') (str ''T1'') None
         (None :: (nat \<times> nat \<times> jsstring \<Rightarrow> unit) option))) =
     Inr \<lparr>folder_id = str ''N0'', folder_name = str ''docs'', filesCopied = 3\<rparr>"
    by (rule copyFolder_folder_three(2))
  show "length (filter is_FileCopied
     (fst (copyFolder env_ok folder_three (str ''FFF'') (str ''T1'') None
         (None :: (nat \<times> nat \<times> jsstring \<Rightarrow> unit) option)))) = 4"
    unfolding copyFolder_folder_three(1) by simp
qed

lemma last_processItem_body_folder_three:
  "last (fst (snd (processItem_body env_ok folder_three (str ''T1'') item_folder))) =
     progress_event 0 ItemSuccess 100 (str ''Copied folder: docs (3 files)'')"
  by code_simp

theorem filesCopied_counts_direct_children_witness:
  "snd (snd (copyFolder env_ok folder_three (str ''FFF'') (str ''T1'') None
         (None :: (nat \<times> nat \<times> jsstring \<Rightarrow> unit) option))) =
     Inr \<lparr>folder_id = str ''N0'', folder_name = str ''docs'', filesCopied = 3\<rparr> \<and>
   files_list folder_three =
     Resolves
       [(\<lparr>meta_id = str ''S2'', meta_name = str ''a.txt'', meta_mimeType = str ''text/plain''\<rparr>,
         plain_file ''a.txt'' ''N2''),
        (\<lparr>meta_id = str ''S3'', meta_name = str ''b.txt'', meta_mimeType = str ''text/plain''\<rparr>,
         plain_file ''b.txt'' ''N3''),
        (\<lparr>meta_id = str ''S4'', meta_name = str ''sub'', meta_mimeType = MIME_TYPES_FOLDER\<rparr>,
         subfolder_two)] \<and>
   filesCopied \<lparr>folder_id = str ''N0'', folder_name = str ''docs'', filesCopied = 3\<rparr> =
     length
       [(\<lparr>meta_id = str ''S2'', meta_name = str ''a.txt'', meta_mimeType = str ''text/plain''\<rparr>,
         plain_file ''a.txt'' ''N2''),
        (\<lparr>meta_id = str ''S3'', meta_name = str ''b.txt'', meta_mimeType = str ''text/plain''\<rparr>,
         plain_file ''b.txt'' ''N3''),
        (\<lparr>meta_id = str ''S4'', meta_name = str ''sub'', meta_mimeType = MIME_TYPES_FOLDER\<rparr>,
         subfolder_two)] \<and>
   res_success (snd (snd (processItem_body env_ok folder_three (str ''T1'') item_folder))) \<and>
   it_parsed item_folder = Some \<lparr>parsed_id = str ''FFF'', parsed_type = Folder\<rparr> \<and>
   last (fst (snd (processItem_body env_ok folder_three (str ''T1'') item_folder))) =
     progress_event 0 ItemSuccess 100 (str ''Copied folder: docs (3 files)'')"
proof -
  let ?F = "copyFolder env_ok folder_three (str ''FFF'') (str ''T1'') None
         (None :: (nat \<times> nat \<times> jsstring \<Rightarrow> unit) option)"
  let ?P = "processItem_body env_ok folder_three (str ''T1'') item_folder"
  let ?files = "[(\<lparr>meta_id = str ''S2'', meta_name = str ''a.txt'', meta_mimeType = str ''text/plain''\<rparr>,
         plain_file ''a.txt'' ''N2''),
        (\<lparr>meta_id = str ''S3'', meta_name = str ''b.txt'', meta_mimeType = str ''text/plain''\<rparr>,
         plain_file ''b.txt'' ''N3''),
        (\<lparr>meta_id = str ''S4'', meta_name = str ''sub'', meta_mimeType = MIME_TYPES_FOLDER\<rparr>,
         subfolder_two)]"
  have F: "?F = (fst ?F, fst (snd ?F),
      Inr \<lparr>folder_id = str ''N0'', folder_name = str ''docs'', filesCopied = 3\<rparr>)"
    using copyFolder_folder_three(2) by (metis prod.collapse)
  have P: "?P = (fst ?P, fst (snd ?P), snd (snd ?P))" by simp
  have pt: "parsed_type \<lparr>parsed_id = str ''FFF'', parsed_type = Folder\<rparr> = Folder" by simp
  note t = filesCopied_counts_direct_children
    [of env_ok folder_three "str ''FFF''" "str ''T1''" None
      "None :: (nat \<times> nat \<times> jsstring \<Rightarrow> unit) option" "fst ?F" "fst (snd ?F)"
      "\<lparr>folder_id = str ''N0'', folder_name = str ''docs'', filesCopied = 3\<rparr>" ?files
      folder_three "str ''T1''" item_folder "fst ?P" "fst (snd ?P)" "snd (snd ?P)"
      "\<lparr>parsed_id = str ''FFF'', parsed_type = Folder\<rparr>" ?files]
  from t F processItem_body_folder_three(3)
  have c1: "filesCopied \<lparr>folder_id = str ''N0'', folder_name = str ''docs'', filesCopied = 3\<rparr> =
     length ?files"
    by blast
  from c1 copyFolder_folder_three(2) processItem_body_folder_three
    last_processItem_body_folder_three
  show ?thesis by (intro conjI)
qed

section \<open>Job creation\<close>

lemma createJob_folder_fault:
  assumes "or_else tf [] = []"
    and "createFolder e (create_answer m) (permission_answer m)
           (or_else tn (str ''Copied_'' @ iso_date m)) None = (fx, Inl err)"
  shows "createJob e m urls tf tn c js = (fx, Inl err)"
  using assms by (simp add: createJob_def Let_def)

text \<open>
  C6 as the code has it.  When no target folder is given and \<^verbatim>\<open>createFolder\<close> throws,
  \<^verbatim>\<open>createJob\<close> throws the same error before it builds the job.  The handler answers
  with status 500 and the message of the error; the job map is as before, so no job and
  no job status exists for the submission, and no task is started: no item is
  processed.
\<close>

theorem POST_folder_fault:
  "body_urls body = Some urls \<and> urls \<noteq> [] \<and> or_else (body_targetFolderId body) [] = [] \<and>
   createFolder e (create_answer m) (permission_answer m)
     (or_else (body_targetFolderName body) (str ''Copied_'' @ iso_date m)) None = (fx, Inl err) \<longrightarrow>
     createJob e m urls (body_targetFolderId body) (body_targetFolderName body) c js =
       (fx, Inl err) \<and>
     POST e m body js = (fx, Failed 500 (getErrorMessage err), js, None)"
proof
  assume a: "body_urls body = Some urls \<and> urls \<noteq> [] \<and> or_else (body_targetFolderId body) [] = [] \<and>
   createFolder e (create_answer m) (permission_answer m)
     (or_else (body_targetFolderName body) (str ''Copied_'' @ iso_date m)) None = (fx, Inl err)"
  then have c: "\<And>c. createJob e m urls (body_targetFolderId body) (body_targetFolderName body) c js =
       (fx, Inl err)"
    by (intro createJob_folder_fault) simp_all
  from a have "POST e m body js = (fx, Failed 500 (getErrorMessage err), js, None)"
    by (simp add: POST_def Let_def c)
  with c show "createJob e m urls (body_targetFolderId body) (body_targetFolderName body) c js =
       (fx, Inl err) \<and>
     POST e m body js = (fx, Failed 500 (getErrorMessage err), js, None)"
    by simp
qed

lemma createFolder_moment_folder_fault:
  "createFolder env_ok (create_answer moment_folder_fault) (permission_answer moment_folder_fault)
     (or_else (body_targetFolderName body_new_folder)
        (str ''Copied_'' @ iso_date moment_folder_fault)) None =
   ([], Inl (AppError (str ''Failed to create folder'')))"
  by (simp add: createFolder_def env_ok_def moment_folder_fault_def moment_ok_def)

lemma body_new_folder_simps:
  "body_urls body_new_folder =
     Some [str ''https://drive.google.com/file/d/AAAA/view'', str ''not-a-url'']"
  "or_else (body_targetFolderId body_new_folder) [] = []"
  by (simp_all add: body_new_folder_def body_two_def or_else_def)

theorem POST_folder_fault_witness:
  "body_urls body_new_folder =
     Some [str ''https://drive.google.com/file/d/AAAA/view'', str ''not-a-url''] \<and>
   [str ''https://drive.google.com/file/d/AAAA/view'', str ''not-a-url''] \<noteq> [] \<and>
   or_else (body_targetFolderId body_new_folder) [] = [] \<and>
   createFolder env_ok (create_answer moment_folder_fault) (permission_answer moment_folder_fault)
     (or_else (body_targetFolderName body_new_folder)
        (str ''Copied_'' @ iso_date moment_folder_fault)) None =
     ([], Inl (AppError (str ''Failed to create folder''))) \<and>
   POST env_ok moment_folder_fault body_new_folder three_jobs =
     ([], Failed 500 (str ''Failed to create folder''), three_jobs, None)"
  using POST_folder_fault
    [of body_new_folder "[str ''https://drive.google.com/file/d/AAAA/view'', str ''not-a-url'']"
      env_ok moment_folder_fault "[]" "AppError (str ''Failed to create folder'')" "Num 3" three_jobs]
    createFolder_moment_folder_fault body_new_folder_simps
  by simp

text \<open>
  C6 as the claim states it fails: the folder cannot be created, the request is answered
  with status 500, and the job map stays empty: there is no job whose status could be
  error.
\<close>

theorem POST_folder_fault_no_job:
  "POST env_ok moment_folder_fault body_new_folder [] =
     ([], Failed 500 (str ''Failed to create folder''), [], None) \<and>
   getJob [] (generateJobId moment_folder_fault) = None"
  by (simp add: POST_def createJob_def Let_def createFolder_moment_folder_fault
      body_new_folder_simps getJob_def)

section \<open>The events of one item\<close>

lemma copyFile_events:
  assumes "copyFile e r s t n (Some f) = (fx, evs, out)"
  shows "(evs = [] \<or> evs = [f 10] \<or> evs = [f 10, f 90] \<or> evs = [f 10, f 90, f 100]) \<and>
         (\<forall>res. out = Inr res \<longrightarrow> evs = [f 10, f 90, f 100]) \<and>
         (\<forall>err. out = Inl err \<longrightarrow> err = AppError (str ''Failed to copy file''))"
  using assms
  by (auto simp: copyFile_def Let_def progress_call_def
      split: option.splits response.splits sum.splits)

lemma copyFolder_loop_events:
  fixes f :: "nat \<times> nat \<times> jsstring \<Rightarrow> 'ev"
  assumes "copyFolder_loop e nf (Some f) len i files n = (fx, evs, out)"
  shows "\<exists>names. evs = map (\<lambda>(k, name). f (i + 1 + k, len, name)) (enumerate 0 names) \<and>
           length names \<le> length files \<and>
           (\<forall>m. out = Inr m \<longrightarrow> length names = length files)"
  using assms
proof (induction files arbitrary: i n fx evs out)
  case Nil
  then have "evs = []" "\<exists>m. out = Inr m" by auto
  then have "evs = map (\<lambda>(k, name). f (i + 1 + k, len, name)) (enumerate 0 []) \<and>
           length ([] :: jsstring list) \<le> length ([] :: (DriveFileMetadata \<times> resource) list) \<and>
           (\<forall>m. out = Inr m \<longrightarrow> length ([] :: jsstring list) = length ([] :: (DriveFileMetadata \<times> resource) list))"
    by simp
  then show ?case by blast
next
  case (Cons a files)
  obtain f0 r where a: "a = (f0, r)" by (cases a)
  obtain fxb evsb ob where
    lp: "copyFolder_loop e nf (Some f) len (i + 1) files (n + 1) = (fxb, evsb, ob)"
    using prod_cases3 by blast
  from Cons.IH [OF lp] obtain names where
    names: "evsb = map (\<lambda>(k, name). f (i + 1 + 1 + k, len, name)) (enumerate 0 names)"
      "length names \<le> length files" "\<forall>m. ob = Inr m \<longrightarrow> length names = length files"
    by blast
  have shift: "f (i + 1, len, meta_name f0) # evsb =
      map (\<lambda>(k, name). f (i + 1 + k, len, name)) (enumerate 0 (meta_name f0 # names))"
    unfolding names(1) by (simp add: enumerate_Suc_eq case_prod_beta)
  consider (stop) "evs = [f (i + 1, len, meta_name f0)]" "\<exists>err. out = Inl err"
    | (go) "evs = f (i + 1, len, meta_name f0) # evsb" "out = ob"
  proof (cases "meta_mimeType f0 = MIME_TYPES_FOLDER")
    case True
    obtain fxa evs0 oa where
      c: "copyFolder e r (meta_id f0) nf (Some (meta_name f0))
            (None :: (nat \<times> nat \<times> jsstring \<Rightarrow> 'ev) option) = (fxa, evs0, oa)"
      using prod_cases3 by blast
    with Cons.prems True lp show ?thesis
      by (cases oa) (auto simp: a Let_def progress_call_def intro: stop go)
  next
    case False
    obtain fxa evs0 oa where
      c: "copyFile e r (meta_id f0) nf None (None :: (int \<Rightarrow> 'ev) option) = (fxa, evs0, oa)"
      using prod_cases3 by blast
    with Cons.prems False lp show ?thesis
      by (cases oa) (auto simp: a Let_def progress_call_def intro: stop go)
  qed
  then show ?case
  proof cases
    case stop
    then have "evs = map (\<lambda>(k, name). f (i + 1 + k, len, name)) (enumerate 0 [meta_name f0]) \<and>
           length [meta_name f0] \<le> length (a # files) \<and>
           (\<forall>m. out = Inr m \<longrightarrow> length [meta_name f0] = length (a # files))"
      by auto
    then show ?thesis by blast
  next
    case go
    with shift names
    have "evs = map (\<lambda>(k, name). f (i + 1 + k, len, name)) (enumerate 0 (meta_name f0 # names)) \<and>
           length (meta_name f0 # names) \<le> length (a # files) \<and>
           (\<forall>m. out = Inr m \<longrightarrow> length (meta_name f0 # names) = length (a # files))"
      by simp
    then show ?thesis by blast
  qed
qed

lemma copyFolder_events:
  fixes f :: "nat \<times> nat \<times> jsstring \<Rightarrow> 'ev"
  assumes "copyFolder e r s t n (Some f) = (fx, evs, out)"
  shows "(\<exists>names len. evs = map (\<lambda>(k, name). f (1 + k, len, name)) (enumerate 0 names) \<and>
           length names \<le> len) \<and>
         (\<forall>err. out = Inl err \<longrightarrow> err = AppError (str ''Failed to copy folder''))"
proof -
  have nil: "([] :: 'ev list) = map (\<lambda>(k, name). f (1 + k, 0, name)) (enumerate 0 []) \<and>
      length ([] :: jsstring list) \<le> 0"
    by simp
  show ?thesis
  proof (cases "\<exists>sourceFolder fx1 newFolderId files. initialize_error e = None \<and>
      getFileMetadata e r s = Inr sourceFolder \<and>
      createFolder e (files_create r) (permissions_create r) (or_else n (meta_name sourceFolder))
        (Some t) = (fx1, Inr newFolderId) \<and>
      listFilesInFolder e r s = Inr files")
    case False
    with assms have "evs = []" "out = Inl (AppError (str ''Failed to copy folder''))"
      by (auto simp: copyFolder.simps Let_def split: option.splits sum.splits prod.splits)
    with nil show ?thesis by blast
  next
    case True
    then obtain sourceFolder fx1 newFolderId files where
      i: "initialize_error e = None" "getFileMetadata e r s = Inr sourceFolder"
        "createFolder e (files_create r) (permissions_create r) (or_else n (meta_name sourceFolder))
          (Some t) = (fx1, Inr newFolderId)"
        "listFilesInFolder e r s = Inr files"
      by blast
    obtain fx2 evs2 o2 where
      lp: "copyFolder_loop e newFolderId (Some f) (length files) 0 files 0 = (fx2, evs2, o2)"
      using prod_cases3 by blast
    from assms i lp have ev: "evs = evs2"
      and out: "\<forall>err. out = Inl err \<longrightarrow> err = AppError (str ''Failed to copy folder'')"
      by (auto simp: copyFolder.simps Let_def split: sum.splits)
    from copyFolder_loop_events [OF lp] obtain names where
      "evs2 = map (\<lambda>(k, name). f (0 + 1 + k, length files, name)) (enumerate 0 names)"
      "length names \<le> length files"
      by blast
    then have "evs = map (\<lambda>(k, name). f (1 + k, length files, name)) (enumerate 0 names) \<and>
           length names \<le> length files"
      using ev by simp
    with out show ?thesis by blast
  qed
qed

lemma well_formedI:
  assumes "\<forall>ev \<in> set pre. ev_index ev = i \<and> ev_status ev = ItemProcessing"
    "ev_index l = i" "ev_status l = (if ok then ItemSuccess else ItemError)"
  shows "well_formed_events i (pre @ [l]) ok"
  using assms by (auto simp: well_formed_events_def)

lemma onFileProgress_simps [simp]:
  "ev_index (onFileProgress item p) = it_index item"
  "ev_status (onFileProgress item p) = ItemProcessing"
  "ev_progress (onFileProgress item p) = p"
  by (simp_all add: onFileProgress_def progress_event_def)

lemma onFolderProgress_simps [simp]:
  "ev_index (onFolderProgress e item (c, l, n)) = it_index item"
  "ev_status (onFolderProgress e item (c, l, n)) = ItemProcessing"
  "ev_progress (onFolderProgress e item (c, l, n)) = floor_percent e c l"
  by (simp_all add: onFolderProgress_def progress_event_def Let_def)

lemma progress_event_simps [simp]:
  "ev_index (progress_event i st p m) = i"
  "ev_status (progress_event i st p m) = st"
  "ev_progress (progress_event i st p m) = p"
  "ev_message (progress_event i st p m) = m"
  by (simp_all add: progress_event_def)

text \<open>
  The events of the \<^verbatim>\<open>try\<close> block: none when the URL is invalid; otherwise the start
  event, then processing events, then, when the block completes, the success event.
\<close>

lemma processItem_try_shape:
  assumes "processItem_try e r t item = (fx, evs, out)"
  shows "(it_parsed item = None \<and> evs = [] \<and> out = Inl (AppError (str ''Invalid Google Drive URL''))) \<or>
    (\<exists>mids tl. evs = progress_event (it_index item) ItemProcessing 0 (str ''Starting...'') # mids @ tl \<and>
       (\<forall>ev \<in> set mids. ev_index ev = it_index item \<and> ev_status ev = ItemProcessing) \<and>
       (percent_ok e \<longrightarrow> sorted (map ev_progress mids) \<and>
          (\<forall>ev \<in> set mids. 0 \<le> ev_progress ev \<and> ev_progress ev \<le> 100)) \<and>
       (case out of
          Inl err \<Rightarrow> tl = [] \<and>
            (err = AppError (str ''Failed to copy file'') \<or> err = AppError (str ''Failed to copy folder''))
        | Inr res \<Rightarrow> (\<exists>m. tl = [progress_event (it_index item) ItemSuccess 100 m]) \<and>
            res_success res \<and> res_url res = it_url item))"
proof (cases "it_parsed item")
  case None
  with assms show ?thesis by (simp add: processItem_try_def)
next
  case (Some p)
  let ?start = "progress_event (it_index item) ItemProcessing 0 (str ''Starting...'')"
  show ?thesis
  proof (cases "parsed_type p")
    case File
    obtain fx' mids out' where
      c: "copyFile e r (parsed_id p) t None (Some (onFileProgress item)) = (fx', mids, out')"
      using prod_cases3 by blast
    from copyFile_events [OF c]
    have m: "mids = [] \<or> mids = [onFileProgress item 10] \<or>
        mids = [onFileProgress item 10, onFileProgress item 90] \<or>
        mids = [onFileProgress item 10, onFileProgress item 90, onFileProgress item 100]"
      and e: "\<forall>err. out' = Inl err \<longrightarrow> err = AppError (str ''Failed to copy file'')"
      by blast+
    from m have 1: "\<forall>ev \<in> set mids. ev_index ev = it_index item \<and> ev_status ev = ItemProcessing"
      and 2: "sorted (map ev_progress mids) \<and>
          (\<forall>ev \<in> set mids. 0 \<le> ev_progress ev \<and> ev_progress ev \<le> 100)"
      by auto
    show ?thesis
    proof (cases out')
      case (Inl err)
      with assms Some File c e have "evs = ?start # mids @ []" "out = Inl err"
        "err = AppError (str ''Failed to copy file'')"
        by (auto simp: processItem_try_def Let_def)
      with 1 2 show ?thesis by - (rule disjI2, rule exI [of _ mids], rule exI [of _ "[]"], simp)
    next
      case (Inr res')
      with assms Some File c obtain res where
        "evs = ?start # mids @ [progress_event (it_index item) ItemSuccess 100
                       (str ''Copied: '' @ file_name res')]"
        "out = Inr res" "res_success res" "res_url res = it_url item"
        by (auto simp: processItem_try_def Let_def)
      moreover have "\<exists>m. progress_event (it_index item) ItemSuccess 100
             (str ''Copied: '' @ file_name res') = progress_event (it_index item) ItemSuccess 100 m"
        by (rule exI) (rule refl)
      ultimately show ?thesis using 1 2
        by - (rule disjI2, rule exI [of _ mids],
            rule exI [of _ "[progress_event (it_index item) ItemSuccess 100
                       (str ''Copied: '' @ file_name res')]"], simp)
    qed
  next
    case Folder
    obtain fx' mids out' where
      c: "copyFolder e r (parsed_id p) t None (Some (onFolderProgress e item)) = (fx', mids, out')"
      using prod_cases3 by blast
    from copyFolder_events [OF c] obtain names len where
      m: "mids = map (\<lambda>(k, name). onFolderProgress e item (1 + k, len, name)) (enumerate 0 names)"
        "length names \<le> len"
      and e: "\<forall>err. out' = Inl err \<longrightarrow> err = AppError (str ''Failed to copy folder'')"
      by blast
    from m have 1: "\<forall>ev \<in> set mids. ev_index ev = it_index item \<and> ev_status ev = ItemProcessing"
      by auto
    have p: "map ev_progress mids = map (\<lambda>k. floor_percent e (1 + k) len) [0..<length names]"
      unfolding m(1) by (simp add: enumerate_eq_zip case_prod_beta o_def)
        (rule nth_equalityI, simp_all)
    have 2: "percent_ok e \<longrightarrow> sorted (map ev_progress mids) \<and>
          (\<forall>ev \<in> set mids. 0 \<le> ev_progress ev \<and> ev_progress ev \<le> 100)"
    proof
      assume ok: "percent_ok e"
      then have b: "\<And>c c'. 0 < c \<Longrightarrow> c \<le> c' \<Longrightarrow> c' \<le> len \<Longrightarrow>
          0 \<le> floor_percent e c len \<and> floor_percent e c len \<le> floor_percent e c' len \<and>
          floor_percent e c' len \<le> 100"
        unfolding percent_ok_def by blast
      have s: "sorted (map ev_progress mids)"
        unfolding p sorted_iff_nth_mono using m(2) by (auto intro: b [THEN conjunct2, THEN conjunct1])
      have "\<forall>x \<in> set (map ev_progress mids). 0 \<le> x \<and> x \<le> 100"
        unfolding p using m(2) b [of "1 + k" "1 + k" for k] by auto
      with s show "sorted (map ev_progress mids) \<and>
          (\<forall>ev \<in> set mids. 0 \<le> ev_progress ev \<and> ev_progress ev \<le> 100)"
        by simp
    qed
    show ?thesis
    proof (cases out')
      case (Inl err)
      with assms Some Folder c e have "evs = ?start # mids @ []" "out = Inl err"
        "err = AppError (str ''Failed to copy folder'')"
        by (auto simp: processItem_try_def Let_def)
      with 1 2 show ?thesis by - (rule disjI2, rule exI [of _ mids], rule exI [of _ "[]"], simp)
    next
      case (Inr res')
      with assms Some Folder c obtain res where
        "evs = ?start # mids @ [progress_event (it_index item) ItemSuccess 100
                       (str ''Copied folder: '' @ folder_name res' @ str '' ('' @
                        digits (filesCopied res') @ str '' files)'')]"
        "out = Inr res" "res_success res" "res_url res = it_url item"
        by (auto simp: processItem_try_def Let_def)
      moreover have "\<exists>m. progress_event (it_index item) ItemSuccess 100
             (str ''Copied folder: '' @ folder_name res' @ str '' ('' @
                        digits (filesCopied res') @ str '' files)'') =
           progress_event (it_index item) ItemSuccess 100 m"
        by (rule exI) (rule refl)
      ultimately show ?thesis using 1 2
        by - (rule disjI2, rule exI [of _ mids],
            rule exI [of _ "[progress_event (it_index item) ItemSuccess 100
                       (str ''Copied folder: '' @ folder_name res' @ str '' ('' @
                        digits (filesCopied res') @ str '' files)'')]"], simp)
    qed
  qed
qed

text \<open>The events of the whole body: those of the \<^verbatim>\<open>try\<close> block, and the error event of the handler.\<close>

lemma processItem_body_shape:
  assumes "processItem_body e r t item = (fx, evs, res)"
  shows "\<exists>pre l. evs = pre @ [l] \<and>
     (\<forall>ev \<in> set pre. ev_index ev = it_index item \<and> ev_status ev = ItemProcessing) \<and>
     ev_index l = it_index item \<and>
     (percent_ok e \<longrightarrow> sorted (map ev_progress pre) \<and>
        (\<forall>ev \<in> set pre. 0 \<le> ev_progress ev \<and> ev_progress ev \<le> 100)) \<and>
     (if res_success res then ev_status l = ItemSuccess \<and> ev_progress l = 100
      else ev_status l = ItemError \<and> ev_progress l = 0 \<and>
        (\<exists>m. res_error res = Some m \<and> ev_message l = str ''Error: '' @ m)) \<and>
     res_url res = it_url item"
proof -
  obtain fx' evs' out where t: "processItem_try e r t item = (fx', evs', out)"
    using prod_cases3 by blast
  let ?start = "progress_event (it_index item) ItemProcessing 0 (str ''Starting...'')"
  from processItem_try_shape [OF t]
  consider (invalid) "evs' = []" "out = Inl (AppError (str ''Invalid Google Drive URL''))"
    | (started) mids tl where "evs' = ?start # mids @ tl"
        "\<forall>ev \<in> set mids. ev_index ev = it_index item \<and> ev_status ev = ItemProcessing"
        "percent_ok e \<longrightarrow> sorted (map ev_progress mids) \<and>
          (\<forall>ev \<in> set mids. 0 \<le> ev_progress ev \<and> ev_progress ev \<le> 100)"
        "case out of
          Inl err \<Rightarrow> tl = [] \<and>
            (err = AppError (str ''Failed to copy file'') \<or> err = AppError (str ''Failed to copy folder''))
        | Inr res \<Rightarrow> (\<exists>m. tl = [progress_event (it_index item) ItemSuccess 100 m]) \<and>
            res_success res \<and> res_url res = it_url item"
    by blast
  then show ?thesis
  proof cases
    case invalid
    with assms t have "evs = [] @ [progress_event (it_index item) ItemError 0
        (str ''Error: '' @ str ''Invalid Google Drive URL'')]"
      "\<not> res_success res" "res_error res = Some (str ''Invalid Google Drive URL'')"
      "res_url res = it_url item"
      by (auto simp: processItem_body_def Let_def)
    then show ?thesis
      by - (rule exI [of _ "[]"], rule exI [of _ "progress_event (it_index item) ItemError 0
        (str ''Error: '' @ str ''Invalid Google Drive URL'')"], simp)
  next
    case started
    have pre: "\<forall>ev \<in> set (?start # mids). ev_index ev = it_index item \<and> ev_status ev = ItemProcessing"
      using started(2) by simp
    have pct: "percent_ok e \<longrightarrow> sorted (map ev_progress (?start # mids)) \<and>
        (\<forall>ev \<in> set (?start # mids). 0 \<le> ev_progress ev \<and> ev_progress ev \<le> 100)"
      using started(3) by auto
    show ?thesis
    proof (cases out)
      case (Inl err)
      with started(4) have tl: "tl = []" by simp
      from assms t Inl have "evs = evs' @ [progress_event (it_index item) ItemError 0
          (str ''Error: '' @ error_message err)]"
        "\<not> res_success res" "res_error res = Some (error_message err)" "res_url res = it_url item"
        by (auto simp: processItem_body_def Let_def)
      with started(1) tl pre pct show ?thesis
        by - (rule exI [of _ "?start # mids"], rule exI [of _ "progress_event (it_index item) ItemError 0
          (str ''Error: '' @ error_message err)"], simp)
    next
      case (Inr res')
      with started(4) obtain m where tl: "tl = [progress_event (it_index item) ItemSuccess 100 m]"
        and r: "res_success res'" "res_url res' = it_url item"
        by auto
      from assms t Inr have "evs = evs'" "res = res'"
        by (auto simp: processItem_body_def Let_def)
      with started(1) tl r pre pct show ?thesis
        by - (rule exI [of _ "?start # mids"],
              rule exI [of _ "progress_event (it_index item) ItemSuccess 100 m"], simp)
    qed
  qed
qed

lemma processItem_body_well_formed:
  assumes "processItem_body e r t item = (fx, evs, res)"
  shows "well_formed_events (it_index item) evs (res_success res)"
proof -
  from processItem_body_shape [OF assms] obtain pre l where
    "evs = pre @ [l]"
    "\<forall>ev \<in> set pre. ev_index ev = it_index item \<and> ev_status ev = ItemProcessing"
    "ev_index l = it_index item"
    "if res_success res then ev_status l = ItemSuccess \<and> ev_progress l = 100
      else ev_status l = ItemError \<and> ev_progress l = 0 \<and>
        (\<exists>m. res_error res = Some m \<and> ev_message l = str ''Error: '' @ m)"
    by blast
  then show ?thesis
    by (auto intro!: well_formedI split: if_splits)
qed

section \<open>The invariant of a running job\<close>

lemma proj_simps [simp]:
  "proj i [] = []"
  "proj i (xs @ ys) = proj i xs @ proj i ys"
  "proj i [ev] = (if ev_index ev = i then [ev] else [])"
  by (simp_all add: proj_def)

lemma item_events_well_formed:
  assumes "it_index (its ! i) = i"
  shows "well_formed_events i (item_events e answers tgt its i)
           (res_success (item_result e answers tgt its i))"
proof -
  have "processItem_body e (answers i) tgt (its ! i) =
      (fst (processItem_body e (answers i) tgt (its ! i)),
       item_events e answers tgt its i, item_result e answers tgt its i)"
    by (simp add: item_events_def item_result_def)
  from processItem_body_well_formed [OF this] assms show ?thesis by simp
qed

lemma well_formed_prefix:
  assumes "well_formed_events i (done @ rem) ok" "rem \<noteq> []"
  shows "\<forall>ev \<in> set done. ev_status ev = ItemProcessing"
    and "\<forall>ev \<in> set (done @ rem). ev_index ev = i"
    and "rem = [ev] \<Longrightarrow> ev_status ev = (if ok then ItemSuccess else ItemError)"
    and "rem = ev # ev' # evs \<Longrightarrow> ev_status ev = ItemProcessing"
  using assms by (auto simp: well_formed_events_def butlast_append)

subsection \<open>The cases of a worker step\<close>

lemma worker_step_idle:
  "\<not> w < length (workers (task s)) \<or> workers (task s) ! w = Returned \<Longrightarrow>
   worker_step e answers jobId w s = s"
  by (auto simp: worker_step_def Let_def)

lemma worker_step_claim:
  assumes "w < length (workers (task s))" "workers (task s) ! w = AtLoopHead"
    "currentIndex (task s) < length (batch_items (task s))"
  shows "worker_step e answers jobId w s =
     s\<lparr>task := (task s)
          \<lparr>currentIndex := currentIndex (task s) + 1,
           workers := (workers (task s))
             [w := InBody (currentIndex (task s))
                (item_events e answers (batch_target (task s)) (batch_items (task s))
                   (currentIndex (task s)))
                (item_result e answers (batch_target (task s)) (batch_items (task s))
                   (currentIndex (task s)))]\<rparr>\<rparr>"
  using assms
  by (simp add: worker_step_def Let_def item_events_def item_result_def case_prod_beta)

lemma worker_step_return:
  assumes "w < length (workers (task s))" "workers (task s) ! w = AtLoopHead"
    "\<not> currentIndex (task s) < length (batch_items (task s))"
  shows "worker_step e answers jobId w s =
     s\<lparr>task := (task s)\<lparr>workers := (workers (task s))[w := Returned]\<rparr>\<rparr>"
  using assms by (simp add: worker_step_def Let_def)

lemma worker_step_emit:
  assumes "w < length (workers (task s))" "workers (task s) ! w = InBody i (ev # ev' # evs) res"
  shows "worker_step e answers jobId w s =
     s\<lparr>task := (task s)\<lparr>workers := (workers (task s))[w := InBody i (ev' # evs) res]\<rparr>,
       jobs := onProgress_job jobId ev (jobs s),
       emitted := emitted s @ [ev]\<rparr>"
  using assms by (simp add: worker_step_def Let_def)

lemma worker_step_last:
  assumes "w < length (workers (task s))" "workers (task s) ! w = InBody i [ev] res"
  shows "worker_step e answers jobId w s =
     s\<lparr>task := (task s)\<lparr>workers := (workers (task s))[w := AtLoopHead],
                        results := (results (task s))[i := Some res]\<rparr>,
       jobs := onProgress_job jobId ev (jobs s),
       emitted := emitted s @ [ev]\<rparr>"
  using assms by (simp add: worker_step_def Let_def)

lemma worker_step_cases [consumes 0, case_names idle claim return emit last empty]:
  assumes "\<not> w < length (workers (task s)) \<or> workers (task s) ! w = Returned \<Longrightarrow> P"
    and "\<lbrakk>w < length (workers (task s)); workers (task s) ! w = AtLoopHead;
          currentIndex (task s) < length (batch_items (task s))\<rbrakk> \<Longrightarrow> P"
    and "\<lbrakk>w < length (workers (task s)); workers (task s) ! w = AtLoopHead;
          \<not> currentIndex (task s) < length (batch_items (task s))\<rbrakk> \<Longrightarrow> P"
    and "\<And>i ev ev' evs res. \<lbrakk>w < length (workers (task s));
          workers (task s) ! w = InBody i (ev # ev' # evs) res\<rbrakk> \<Longrightarrow> P"
    and "\<And>i ev res. \<lbrakk>w < length (workers (task s));
          workers (task s) ! w = InBody i [ev] res\<rbrakk> \<Longrightarrow> P"
    and "\<And>i res. \<lbrakk>w < length (workers (task s));
          workers (task s) ! w = InBody i [] res\<rbrakk> \<Longrightarrow> P"
  shows P
proof (cases "w < length (workers (task s))")
  case False
  then show ?thesis using assms(1) by simp
next
  case True
  show ?thesis
  proof (cases "workers (task s) ! w")
    case AtLoopHead
    with True assms(2,3) show ?thesis by blast
  next
    case (InBody i rem res)
    show ?thesis
    proof (cases rem)
      case Nil
      with True InBody assms(6) show ?thesis by blast
    next
      case (Cons ev rem')
      with True InBody assms(4,5) show ?thesis by (cases rem') blast+
    qed
  next
    case Returned
    then show ?thesis using assms(1) by simp
  qed
qed

subsection \<open>The invariant of the task\<close>

lemma in_body_nth:
  "in_body b i \<longleftrightarrow> (\<exists>w < length (workers b). \<exists>rem res. workers b ! w = InBody i rem res)"
  unfolding in_body_def in_set_conv_nth by blast

lemma task_invD:
  assumes "task_inv e answers tgt its s"
  shows "batch_items (task s) = its" "batch_target (task s) = tgt"
    "length (results (task s)) = length its" "currentIndex (task s) \<le> length its"
    "\<And>i. i < length its \<Longrightarrow> it_index (its ! i) = i"
    "workers (task s) = [] \<Longrightarrow> currentIndex (task s) = 0"
    "Returned \<in> set (workers (task s)) \<Longrightarrow> currentIndex (task s) = length its"
    "\<And>x. settled s \<Longrightarrow> x \<in> set (workers (task s)) \<Longrightarrow> x = Returned"
    "\<And>w i rem res. w < length (workers (task s)) \<Longrightarrow> workers (task s) ! w = InBody i rem res \<Longrightarrow>
       i < currentIndex (task s) \<and> rem \<noteq> [] \<and>
       item_events e answers tgt its i = proj i (emitted s) @ rem \<and>
       res = item_result e answers tgt its i"
    "\<And>w w' i rem res rem' res'. w < length (workers (task s)) \<Longrightarrow>
       workers (task s) ! w = InBody i rem res \<Longrightarrow> w' < length (workers (task s)) \<Longrightarrow>
       workers (task s) ! w' = InBody i rem' res' \<Longrightarrow> w' = w"
    "\<And>i. i < length its \<Longrightarrow> currentIndex (task s) \<le> i \<Longrightarrow> proj i (emitted s) = []"
    "\<And>i. finished (task s) i \<Longrightarrow>
       proj i (emitted s) = item_events e answers tgt its i \<and>
       results (task s) ! i = Some (item_result e answers tgt its i)"
proof -
  note a = assms [unfolded task_inv_def]
  show "batch_items (task s) = its" using a by (elim conjE)
  show "batch_target (task s) = tgt" using a by (elim conjE)
  show "length (results (task s)) = length its" using a by (elim conjE)
  show "currentIndex (task s) \<le> length its" using a by (elim conjE)
  show "\<And>i. i < length its \<Longrightarrow> it_index (its ! i) = i" using a by (elim conjE) blast
  show "workers (task s) = [] \<Longrightarrow> currentIndex (task s) = 0" using a by (elim conjE) blast
  show "Returned \<in> set (workers (task s)) \<Longrightarrow> currentIndex (task s) = length its"
    using a by (elim conjE) blast
  show "\<And>x. settled s \<Longrightarrow> x \<in> set (workers (task s)) \<Longrightarrow> x = Returned"
    using a by (elim conjE) blast
  show "\<And>w i rem res. w < length (workers (task s)) \<Longrightarrow> workers (task s) ! w = InBody i rem res \<Longrightarrow>
       i < currentIndex (task s) \<and> rem \<noteq> [] \<and>
       item_events e answers tgt its i = proj i (emitted s) @ rem \<and>
       res = item_result e answers tgt its i"
    using a by (elim conjE) blast
  show "\<And>w w' i rem res rem' res'. w < length (workers (task s)) \<Longrightarrow>
       workers (task s) ! w = InBody i rem res \<Longrightarrow> w' < length (workers (task s)) \<Longrightarrow>
       workers (task s) ! w' = InBody i rem' res' \<Longrightarrow> w' = w"
    using a by (elim conjE) blast
  show "\<And>i. i < length its \<Longrightarrow> currentIndex (task s) \<le> i \<Longrightarrow> proj i (emitted s) = []"
    using a by (elim conjE) blast
  show "\<And>i. finished (task s) i \<Longrightarrow>
       proj i (emitted s) = item_events e answers tgt its i \<and>
       results (task s) ! i = Some (item_result e answers tgt its i)"
    using a by (elim conjE) blast
qed

lemma task_invI:
  assumes "batch_items (task s) = its" "batch_target (task s) = tgt"
    "length (results (task s)) = length its" "currentIndex (task s) \<le> length its"
    "\<And>i. i < length its \<Longrightarrow> it_index (its ! i) = i"
    "workers (task s) = [] \<Longrightarrow> currentIndex (task s) = 0"
    "Returned \<in> set (workers (task s)) \<Longrightarrow> currentIndex (task s) = length its"
    "\<And>x. settled s \<Longrightarrow> x \<in> set (workers (task s)) \<Longrightarrow> x = Returned"
    "\<And>w i rem res. w < length (workers (task s)) \<Longrightarrow> workers (task s) ! w = InBody i rem res \<Longrightarrow>
       i < currentIndex (task s) \<and> rem \<noteq> [] \<and>
       item_events e answers tgt its i = proj i (emitted s) @ rem \<and>
       res = item_result e answers tgt its i"
    "\<And>w w' i rem res rem' res'. w < length (workers (task s)) \<Longrightarrow>
       workers (task s) ! w = InBody i rem res \<Longrightarrow> w' < length (workers (task s)) \<Longrightarrow>
       workers (task s) ! w' = InBody i rem' res' \<Longrightarrow> w' = w"
    "\<And>i. i < length its \<Longrightarrow> currentIndex (task s) \<le> i \<Longrightarrow> proj i (emitted s) = []"
    "\<And>i. finished (task s) i \<Longrightarrow>
       proj i (emitted s) = item_events e answers tgt its i \<and>
       results (task s) ! i = Some (item_result e answers tgt its i)"
  shows "task_inv e answers tgt its s"
  unfolding task_inv_def
  apply (intro conjI allI impI ballI)
  using assms(1) apply assumption
  using assms(2) apply assumption
  using assms(3) apply assumption
  using assms(4) apply assumption
  using assms(5) apply blast
  using assms(6) apply blast
  using assms(7) apply blast
  using assms(8) apply blast
  using assms(9) apply blast
  using assms(9) apply blast
  using assms(9) apply blast
  using assms(9) apply blast
  using assms(10) apply blast
  using assms(11) apply blast
  using assms(12) apply blast
  using assms(12) apply blast
  done

lemma task_inv_claim:
  assumes inv: "task_inv e answers tgt its s"
    and w: "w < length (workers (task s))" "workers (task s) ! w = AtLoopHead"
      "currentIndex (task s) < length (batch_items (task s))"
  shows "task_inv e answers tgt its (worker_step e answers jobId w s)"
proof -
  note D = task_invD [OF inv]
  let ?ci = "currentIndex (task s)"
  let ?ws = "workers (task s)"
  let ?new = "InBody ?ci (item_events e answers tgt its ?ci) (item_result e answers tgt its ?ci)"
  let ?s' = "s\<lparr>task := (task s)\<lparr>currentIndex := ?ci + 1, workers := ?ws[w := ?new]\<rparr>\<rparr>"
  have step: "worker_step e answers jobId w s = ?s'"
    using worker_step_claim [OF w] unfolding D(1) D(2) .
  have ci: "?ci < length its" using w(3) D(1) by simp
  have nth: "\<And>v. v < length ?ws \<Longrightarrow> (?ws[w := ?new]) ! v = (if v = w then ?new else ?ws ! v)"
    by (simp add: nth_list_update)
  have wf: "well_formed_events ?ci (item_events e answers tgt its ?ci)
      (res_success (item_result e answers tgt its ?ci))"
    by (rule item_events_well_formed) (rule D(5) [OF ci])
  show ?thesis
    unfolding step
  proof (rule task_invI)
    show "batch_items (task ?s') = its" using D(1) by simp
    show "batch_target (task ?s') = tgt" using D(2) by simp
    show "length (results (task ?s')) = length its" using D(3) by simp
    show "currentIndex (task ?s') \<le> length its" using ci by simp
    show "\<And>i. i < length its \<Longrightarrow> it_index (its ! i) = i" by (rule D(5))
    show "workers (task ?s') = [] \<Longrightarrow> currentIndex (task ?s') = 0" using w(1) by auto
    show "Returned \<in> set (workers (task ?s')) \<Longrightarrow> currentIndex (task ?s') = length its"
    proof -
      assume "Returned \<in> set (workers (task ?s'))"
      then have "Returned \<in> set ?ws"
        using set_update_subset_insert [of ?ws w ?new] by auto
      from D(7) [OF this] ci show ?thesis by simp
    qed
    show "\<And>x. settled ?s' \<Longrightarrow> x \<in> set (workers (task ?s')) \<Longrightarrow> x = Returned"
    proof -
      fix x assume "settled ?s'"
      then have "settled s" by simp
      moreover have "?ws ! w \<in> set ?ws" using w(1) by simp
      ultimately have "?ws ! w = Returned" by (rule D(8))
      with w(2) show "x = Returned" by simp
    qed
    show "\<And>v i rem res. v < length (workers (task ?s')) \<Longrightarrow>
        workers (task ?s') ! v = InBody i rem res \<Longrightarrow>
        i < currentIndex (task ?s') \<and> rem \<noteq> [] \<and>
        item_events e answers tgt its i = proj i (emitted ?s') @ rem \<and>
        res = item_result e answers tgt its i"
    proof -
      fix v i rem res
      assume v: "v < length (workers (task ?s'))" "workers (task ?s') ! v = InBody i rem res"
      show "i < currentIndex (task ?s') \<and> rem \<noteq> [] \<and>
        item_events e answers tgt its i = proj i (emitted ?s') @ rem \<and>
        res = item_result e answers tgt its i"
      proof (cases "v = w")
        case True
        with v nth [of v] have "i = ?ci" "rem = item_events e answers tgt its ?ci"
          "res = item_result e answers tgt its ?ci"
          by auto
        moreover have "proj ?ci (emitted s) = []" using D(11) [OF ci] by simp
        moreover have "item_events e answers tgt its ?ci \<noteq> []"
          using wf by (simp add: well_formed_events_def)
        ultimately show ?thesis by simp
      next
        case False
        with v nth [of v] have "v < length ?ws" "?ws ! v = InBody i rem res" by simp_all
        from D(9) [OF this] show ?thesis by simp
      qed
    qed
    show "\<And>v v' i rem res rem' res'. v < length (workers (task ?s')) \<Longrightarrow>
        workers (task ?s') ! v = InBody i rem res \<Longrightarrow> v' < length (workers (task ?s')) \<Longrightarrow>
        workers (task ?s') ! v' = InBody i rem' res' \<Longrightarrow> v' = v"
    proof -
      fix v v' i rem res rem' res'
      assume v: "v < length (workers (task ?s'))" "workers (task ?s') ! v = InBody i rem res"
        and v': "v' < length (workers (task ?s'))" "workers (task ?s') ! v' = InBody i rem' res'"
      have old: "\<And>u j r q. u < length ?ws \<Longrightarrow> u \<noteq> w \<Longrightarrow> (?ws[w := ?new]) ! u = InBody j r q \<Longrightarrow>
          ?ws ! u = InBody j r q \<and> j < ?ci"
        using D(9) nth by auto
      show "v' = v"
      proof (cases "v = w")
        case True
        with v nth [of v] have i: "i = ?ci" by simp
        show ?thesis
        proof (cases "v' = w")
          case True
          with \<open>v = w\<close> show ?thesis by simp
        next
          case False
          with old [of v' i rem' res'] v' i show ?thesis by simp
        qed
      next
        case False
        with old [of v i rem res] v have o: "?ws ! v = InBody i rem res" "i < ?ci" by simp_all
        show ?thesis
        proof (cases "v' = w")
          case True
          with v' nth [of v'] have "i = ?ci" by simp
          with o show ?thesis by simp
        next
          case False
          with old [of v' i rem' res'] v' have "?ws ! v' = InBody i rem' res'" by simp
          with D(10) [of v i rem res v' rem' res'] o v v' show ?thesis by simp
        qed
      qed
    qed
    show "\<And>i. i < length its \<Longrightarrow> currentIndex (task ?s') \<le> i \<Longrightarrow> proj i (emitted ?s') = []"
      using D(11) by simp
    show "\<And>i. finished (task ?s') i \<Longrightarrow>
        proj i (emitted ?s') = item_events e answers tgt its i \<and>
        results (task ?s') ! i = Some (item_result e answers tgt its i)"
    proof -
      fix i assume f: "finished (task ?s') i"
      have "in_body (task ?s') ?ci"
        unfolding in_body_nth using w(1) by (auto intro!: exI [of _ w])
      with f have "i \<noteq> ?ci" by (auto simp: finished_def)
      with f have lt: "i < ?ci" by (simp add: finished_def)
      have "\<not> in_body (task s) i"
      proof
        assume "in_body (task s) i"
        then obtain u rem res where u: "u < length ?ws" "?ws ! u = InBody i rem res"
          unfolding in_body_nth by blast
        with w(2) have "u \<noteq> w" by auto
        with u have "(?ws[w := ?new]) ! u = InBody i rem res" by simp
        with u(1) have "in_body (task ?s') i" unfolding in_body_nth by auto
        with f show False by (simp add: finished_def)
      qed
      with lt have "finished (task s) i" by (simp add: finished_def)
      from D(12) [OF this] show "proj i (emitted ?s') = item_events e answers tgt its i \<and>
        results (task ?s') ! i = Some (item_result e answers tgt its i)"
        by simp
    qed
  qed
qed

lemma task_inv_return:
  assumes inv: "task_inv e answers tgt its s"
    and w: "w < length (workers (task s))" "workers (task s) ! w = AtLoopHead"
      "\<not> currentIndex (task s) < length (batch_items (task s))"
  shows "task_inv e answers tgt its (worker_step e answers jobId w s)"
proof -
  note D = task_invD [OF inv]
  let ?ci = "currentIndex (task s)"
  let ?ws = "workers (task s)"
  let ?s' = "s\<lparr>task := (task s)\<lparr>workers := ?ws[w := Returned]\<rparr>\<rparr>"
  have step: "worker_step e answers jobId w s = ?s'" by (rule worker_step_return [OF w])
  have ci: "?ci = length its" using w(3) D(1) D(4) by simp
  have old: "?ws ! u = InBody j r q"
    if "u < length ?ws" "(?ws[w := Returned]) ! u = InBody j r q" for u j r q
    using that by (cases "u = w") simp_all
  have body: "\<And>j. in_body (task s) j \<Longrightarrow> in_body (task ?s') j"
  proof -
    fix j assume "in_body (task s) j"
    then obtain u rem res where u: "u < length ?ws" "?ws ! u = InBody j rem res"
      unfolding in_body_nth by blast
    with w(2) have "u \<noteq> w" by auto
    with u have "(?ws[w := Returned]) ! u = InBody j rem res" by simp
    with u(1) show "in_body (task ?s') j" unfolding in_body_nth by auto
  qed
  show ?thesis
    unfolding step
  proof (rule task_invI)
    show "batch_items (task ?s') = its" using D(1) by simp
    show "batch_target (task ?s') = tgt" using D(2) by simp
    show "length (results (task ?s')) = length its" using D(3) by simp
    show "currentIndex (task ?s') \<le> length its" using D(4) by simp
    show "\<And>i. i < length its \<Longrightarrow> it_index (its ! i) = i" by (rule D(5))
    show "workers (task ?s') = [] \<Longrightarrow> currentIndex (task ?s') = 0" using w(1) by auto
    show "Returned \<in> set (workers (task ?s')) \<Longrightarrow> currentIndex (task ?s') = length its"
      using ci by simp
    show "\<And>x. settled ?s' \<Longrightarrow> x \<in> set (workers (task ?s')) \<Longrightarrow> x = Returned"
    proof -
      fix x assume "settled ?s'"
      then have "settled s" by simp
      moreover have "?ws ! w \<in> set ?ws" using w(1) by simp
      ultimately have "?ws ! w = Returned" by (rule D(8))
      with w(2) show "x = Returned" by simp
    qed
    show "\<And>v i rem res. v < length (workers (task ?s')) \<Longrightarrow>
        workers (task ?s') ! v = InBody i rem res \<Longrightarrow>
        i < currentIndex (task ?s') \<and> rem \<noteq> [] \<and>
        item_events e answers tgt its i = proj i (emitted ?s') @ rem \<and>
        res = item_result e answers tgt its i"
      using D(9) old by simp
    show "\<And>v v' i rem res rem' res'. v < length (workers (task ?s')) \<Longrightarrow>
        workers (task ?s') ! v = InBody i rem res \<Longrightarrow> v' < length (workers (task ?s')) \<Longrightarrow>
        workers (task ?s') ! v' = InBody i rem' res' \<Longrightarrow> v' = v"
    proof -
      fix v v' i rem res rem' res'
      assume "v < length (workers (task ?s'))" "workers (task ?s') ! v = InBody i rem res"
        "v' < length (workers (task ?s'))" "workers (task ?s') ! v' = InBody i rem' res'"
      then have "v < length ?ws" "?ws ! v = InBody i rem res" "v' < length ?ws"
        "?ws ! v' = InBody i rem' res'"
        using old by simp_all
      then show "v' = v" by (rule D(10))
    qed
    show "\<And>i. i < length its \<Longrightarrow> currentIndex (task ?s') \<le> i \<Longrightarrow> proj i (emitted ?s') = []"
      using D(11) by simp
    show "\<And>i. finished (task ?s') i \<Longrightarrow>
        proj i (emitted ?s') = item_events e answers tgt its i \<and>
        results (task ?s') ! i = Some (item_result e answers tgt its i)"
    proof -
      fix i assume f: "finished (task ?s') i"
      with body [of i] have "finished (task s) i" by (auto simp: finished_def)
      from D(12) [OF this] show "proj i (emitted ?s') = item_events e answers tgt its i \<and>
        results (task ?s') ! i = Some (item_result e answers tgt its i)"
        by simp
    qed
  qed
qed

lemma task_inv_emit:
  assumes inv: "task_inv e answers tgt its s"
    and w: "w < length (workers (task s))" "workers (task s) ! w = InBody i (ev # ev' # evs) res"
  shows "task_inv e answers tgt its (worker_step e answers jobId w s)"
proof -
  note D = task_invD [OF inv]
  let ?ci = "currentIndex (task s)"
  let ?ws = "workers (task s)"
  let ?new = "InBody i (ev' # evs) res"
  let ?s' = "s\<lparr>task := (task s)\<lparr>workers := ?ws[w := ?new]\<rparr>,
       jobs := onProgress_job jobId ev (jobs s), emitted := emitted s @ [ev]\<rparr>"
  have step: "worker_step e answers jobId w s = ?s'" by (rule worker_step_emit [OF w])
  from D(9) [OF w] have i: "i < ?ci"
    and ev: "item_events e answers tgt its i = proj i (emitted s) @ ev # ev' # evs"
    and res: "res = item_result e answers tgt its i"
    by simp_all
  have il: "i < length its" using i D(4) by simp
  have wf: "well_formed_events i (proj i (emitted s) @ ev # ev' # evs)
      (res_success (item_result e answers tgt its i))"
    using item_events_well_formed [OF D(5) [OF il], of e answers tgt] unfolding ev .
  have evi: "ev_index ev = i"
    using well_formed_prefix(2) [OF wf] by simp
  have old: "\<exists>r'. ?ws ! u = InBody j r' q \<and> (u \<noteq> w \<longrightarrow> r' = r)"
    if "u < length ?ws" "(?ws[w := ?new]) ! u = InBody j r q" for u j r q
    using that w(2) by (cases "u = w") simp_all
  have body: "\<And>j. in_body (task s) j \<Longrightarrow> in_body (task ?s') j"
  proof -
    fix j assume "in_body (task s) j"
    then obtain u rem res' where u: "u < length ?ws" "?ws ! u = InBody j rem res'"
      unfolding in_body_nth by blast
    show "in_body (task ?s') j"
    proof (cases "u = w")
      case True
      with u w have "j = i" by simp
      with w(1) show ?thesis unfolding in_body_nth by (auto intro!: exI [of _ w])
    next
      case False
      with u have "(?ws[w := ?new]) ! u = InBody j rem res'" by simp
      with u(1) show ?thesis unfolding in_body_nth by auto
    qed
  qed
  show ?thesis
    unfolding step
  proof (rule task_invI)
    show "batch_items (task ?s') = its" using D(1) by simp
    show "batch_target (task ?s') = tgt" using D(2) by simp
    show "length (results (task ?s')) = length its" using D(3) by simp
    show "currentIndex (task ?s') \<le> length its" using D(4) by simp
    show "\<And>i. i < length its \<Longrightarrow> it_index (its ! i) = i" by (rule D(5))
    show "workers (task ?s') = [] \<Longrightarrow> currentIndex (task ?s') = 0" using w(1) by auto
    show "Returned \<in> set (workers (task ?s')) \<Longrightarrow> currentIndex (task ?s') = length its"
    proof -
      assume "Returned \<in> set (workers (task ?s'))"
      then have "Returned \<in> set ?ws"
        using set_update_subset_insert [of ?ws w ?new] by auto
      from D(7) [OF this] show ?thesis by simp
    qed
    show "\<And>x. settled ?s' \<Longrightarrow> x \<in> set (workers (task ?s')) \<Longrightarrow> x = Returned"
    proof -
      fix x assume "settled ?s'"
      then have "settled s" by simp
      moreover have "?ws ! w \<in> set ?ws" using w(1) by simp
      ultimately have "?ws ! w = Returned" by (rule D(8))
      with w(2) show "x = Returned" by simp
    qed
    show "\<And>v j rem q. v < length (workers (task ?s')) \<Longrightarrow>
        workers (task ?s') ! v = InBody j rem q \<Longrightarrow>
        j < currentIndex (task ?s') \<and> rem \<noteq> [] \<and>
        item_events e answers tgt its j = proj j (emitted ?s') @ rem \<and>
        q = item_result e answers tgt its j"
    proof -
      fix v j rem q
      assume v: "v < length (workers (task ?s'))" "workers (task ?s') ! v = InBody j rem q"
      show "j < currentIndex (task ?s') \<and> rem \<noteq> [] \<and>
        item_events e answers tgt its j = proj j (emitted ?s') @ rem \<and>
        q = item_result e answers tgt its j"
      proof (cases "v = w")
        case True
        with v w(1) have "j = i" "rem = ev' # evs" "q = res" by simp_all
        with i ev res evi show ?thesis by simp
      next
        case False
        with v have o: "v < length ?ws" "?ws ! v = InBody j rem q" by simp_all
        have "j \<noteq> i"
        proof
          assume "j = i"
          with D(10) [OF w o(1)] o(2) have "v = w" by simp
          with False show False by simp
        qed
        with D(9) [OF o] evi show ?thesis by simp
      qed
    qed
    show "\<And>v v' j rem q rem' q'. v < length (workers (task ?s')) \<Longrightarrow>
        workers (task ?s') ! v = InBody j rem q \<Longrightarrow> v' < length (workers (task ?s')) \<Longrightarrow>
        workers (task ?s') ! v' = InBody j rem' q' \<Longrightarrow> v' = v"
    proof -
      fix v v' j rem q rem' q'
      assume v: "v < length (workers (task ?s'))" "workers (task ?s') ! v = InBody j rem q"
        and v': "v' < length (workers (task ?s'))" "workers (task ?s') ! v' = InBody j rem' q'"
      from old [of v j rem q] v obtain r where r: "?ws ! v = InBody j r q" by auto
      from old [of v' j rem' q'] v' obtain r' where r': "?ws ! v' = InBody j r' q'" by auto
      from v(1) v'(1) have "v < length ?ws" "v' < length ?ws" by simp_all
      from D(10) [OF this(1) r this(2) r'] show "v' = v" .
    qed
    show "\<And>j. j < length its \<Longrightarrow> currentIndex (task ?s') \<le> j \<Longrightarrow> proj j (emitted ?s') = []"
      using D(11) i evi by auto
    show "\<And>j. finished (task ?s') j \<Longrightarrow>
        proj j (emitted ?s') = item_events e answers tgt its j \<and>
        results (task ?s') ! j = Some (item_result e answers tgt its j)"
    proof -
      fix j assume f: "finished (task ?s') j"
      with body [of j] have o: "finished (task s) j" by (auto simp: finished_def)
      have "in_body (task s) i" unfolding in_body_nth using w by blast
      with o have "j \<noteq> i" by (auto simp: finished_def)
      with D(12) [OF o] evi
      show "proj j (emitted ?s') = item_events e answers tgt its j \<and>
        results (task ?s') ! j = Some (item_result e answers tgt its j)"
        by simp
    qed
  qed
qed

lemma task_inv_last:
  assumes inv: "task_inv e answers tgt its s"
    and w: "w < length (workers (task s))" "workers (task s) ! w = InBody i [ev] res"
  shows "task_inv e answers tgt its (worker_step e answers jobId w s)"
proof -
  note D = task_invD [OF inv]
  let ?ci = "currentIndex (task s)"
  let ?ws = "workers (task s)"
  let ?s' = "s\<lparr>task := (task s)\<lparr>workers := ?ws[w := AtLoopHead],
                                 results := (results (task s))[i := Some res]\<rparr>,
       jobs := onProgress_job jobId ev (jobs s), emitted := emitted s @ [ev]\<rparr>"
  have step: "worker_step e answers jobId w s = ?s'" by (rule worker_step_last [OF w])
  from D(9) [OF w] have i: "i < ?ci"
    and ev: "item_events e answers tgt its i = proj i (emitted s) @ [ev]"
    and res: "res = item_result e answers tgt its i"
    by simp_all
  have il: "i < length its" using i D(4) by simp
  have wf: "well_formed_events i (proj i (emitted s) @ [ev])
      (res_success (item_result e answers tgt its i))"
    using item_events_well_formed [OF D(5) [OF il], of e answers tgt] unfolding ev .
  have evi: "ev_index ev = i"
    using well_formed_prefix(2) [OF wf] by simp
  have old: "?ws ! u = InBody j r q \<and> u \<noteq> w"
    if "u < length ?ws" "(?ws[w := AtLoopHead]) ! u = InBody j r q" for u j r q
    using that by (cases "u = w") simp_all
  have other: "j \<noteq> i" if "u < length ?ws" "?ws ! u = InBody j r q" "u \<noteq> w" for u j r q
  proof
    assume "j = i"
    with D(10) [OF w that(1)] that(2) have "u = w" by simp
    with that(3) show False by simp
  qed
  show ?thesis
    unfolding step
  proof (rule task_invI)
    show "batch_items (task ?s') = its" using D(1) by simp
    show "batch_target (task ?s') = tgt" using D(2) by simp
    show "length (results (task ?s')) = length its" using D(3) by simp
    show "currentIndex (task ?s') \<le> length its" using D(4) by simp
    show "\<And>i. i < length its \<Longrightarrow> it_index (its ! i) = i" by (rule D(5))
    show "workers (task ?s') = [] \<Longrightarrow> currentIndex (task ?s') = 0" using w(1) by auto
    show "Returned \<in> set (workers (task ?s')) \<Longrightarrow> currentIndex (task ?s') = length its"
    proof -
      assume "Returned \<in> set (workers (task ?s'))"
      then have "Returned \<in> set ?ws"
        using set_update_subset_insert [of ?ws w AtLoopHead] by auto
      from D(7) [OF this] show ?thesis by simp
    qed
    show "\<And>x. settled ?s' \<Longrightarrow> x \<in> set (workers (task ?s')) \<Longrightarrow> x = Returned"
    proof -
      fix x assume "settled ?s'"
      then have "settled s" by simp
      moreover have "?ws ! w \<in> set ?ws" using w(1) by simp
      ultimately have "?ws ! w = Returned" by (rule D(8))
      with w(2) show "x = Returned" by simp
    qed
    show "\<And>v j rem q. v < length (workers (task ?s')) \<Longrightarrow>
        workers (task ?s') ! v = InBody j rem q \<Longrightarrow>
        j < currentIndex (task ?s') \<and> rem \<noteq> [] \<and>
        item_events e answers tgt its j = proj j (emitted ?s') @ rem \<and>
        q = item_result e answers tgt its j"
    proof -
      fix v j rem q
      assume v: "v < length (workers (task ?s'))" "workers (task ?s') ! v = InBody j rem q"
      with old [of v j rem q] have o: "v < length ?ws" "?ws ! v = InBody j rem q" "v \<noteq> w"
        by simp_all
      from other [OF o] D(9) [OF o(1,2)] evi
      show "j < currentIndex (task ?s') \<and> rem \<noteq> [] \<and>
        item_events e answers tgt its j = proj j (emitted ?s') @ rem \<and>
        q = item_result e answers tgt its j"
        by simp
    qed
    show "\<And>v v' j rem q rem' q'. v < length (workers (task ?s')) \<Longrightarrow>
        workers (task ?s') ! v = InBody j rem q \<Longrightarrow> v' < length (workers (task ?s')) \<Longrightarrow>
        workers (task ?s') ! v' = InBody j rem' q' \<Longrightarrow> v' = v"
    proof -
      fix v v' j rem q rem' q'
      assume v: "v < length (workers (task ?s'))" "workers (task ?s') ! v = InBody j rem q"
        and v': "v' < length (workers (task ?s'))" "workers (task ?s') ! v' = InBody j rem' q'"
      from old [of v j rem q] v have 1: "v < length ?ws" "?ws ! v = InBody j rem q" by simp_all
      from old [of v' j rem' q'] v' have 2: "v' < length ?ws" "?ws ! v' = InBody j rem' q'"
        by simp_all
      from D(10) [OF 1 2] show "v' = v" .
    qed
    show "\<And>j. j < length its \<Longrightarrow> currentIndex (task ?s') \<le> j \<Longrightarrow> proj j (emitted ?s') = []"
      using D(11) i evi by auto
    show "\<And>j. finished (task ?s') j \<Longrightarrow>
        proj j (emitted ?s') = item_events e answers tgt its j \<and>
        results (task ?s') ! j = Some (item_result e answers tgt its j)"
    proof -
      fix j assume f: "finished (task ?s') j"
      show "proj j (emitted ?s') = item_events e answers tgt its j \<and>
        results (task ?s') ! j = Some (item_result e answers tgt its j)"
      proof (cases "j = i")
        case True
        with ev evi res il D(3) show ?thesis by simp
      next
        case False
        have "\<not> in_body (task s) j"
        proof
          assume "in_body (task s) j"
          then obtain u rem q where u: "u < length ?ws" "?ws ! u = InBody j rem q"
            unfolding in_body_nth by blast
          with w(2) False have "u \<noteq> w" by auto
          with u have "(?ws[w := AtLoopHead]) ! u = InBody j rem q" by simp
          with u(1) have "in_body (task ?s') j" unfolding in_body_nth by auto
          with f show False by (simp add: finished_def)
        qed
        with f have "finished (task s) j" by (simp add: finished_def)
        from D(12) [OF this] False evi show ?thesis by simp
      qed
    qed
  qed
qed

lemma task_inv_worker_step:
  assumes "task_inv e answers tgt its s"
  shows "task_inv e answers tgt its (worker_step e answers jobId w s)"
proof (cases rule: worker_step_cases [of w s])
  case idle
  then show ?thesis using assms by (simp add: worker_step_idle)
next
  case claim
  then show ?thesis using assms by (intro task_inv_claim)
next
  case return
  then show ?thesis using assms by (intro task_inv_return)
next
  case (emit i ev ev' evs res)
  then show ?thesis using assms by (intro task_inv_emit)
next
  case (last i ev res)
  then show ?thesis using assms by (intro task_inv_last)
next
  case (empty i res)
  with task_invD(9) [OF assms, of w i "[]" res] show ?thesis by simp
qed

lemma task_inv_cong:
  assumes inv: "task_inv e answers tgt its s" and eq: "task s' = task s" "emitted s' = emitted s"
    and st: "settled s' \<Longrightarrow> \<forall>x \<in> set (workers (task s)). x = Returned"
  shows "task_inv e answers tgt its s'"
proof (rule task_invI)
  note D = task_invD [OF inv]
  show "batch_items (task s') = its" "batch_target (task s') = tgt"
    "length (results (task s')) = length its" "currentIndex (task s') \<le> length its"
    unfolding eq by (rule D)+
  show "\<And>i. i < length its \<Longrightarrow> it_index (its ! i) = i" by (rule D(5))
  show "workers (task s') = [] \<Longrightarrow> currentIndex (task s') = 0" unfolding eq by (rule D(6))
  show "Returned \<in> set (workers (task s')) \<Longrightarrow> currentIndex (task s') = length its"
    unfolding eq by (rule D(7))
  show "\<And>x. settled s' \<Longrightarrow> x \<in> set (workers (task s')) \<Longrightarrow> x = Returned"
    unfolding eq using st by blast
  show "\<And>w i rem res. w < length (workers (task s')) \<Longrightarrow> workers (task s') ! w = InBody i rem res \<Longrightarrow>
       i < currentIndex (task s') \<and> rem \<noteq> [] \<and>
       item_events e answers tgt its i = proj i (emitted s') @ rem \<and>
       res = item_result e answers tgt its i"
    unfolding eq by (rule D(9))
  show "\<And>w w' i rem res rem' res'. w < length (workers (task s')) \<Longrightarrow>
       workers (task s') ! w = InBody i rem res \<Longrightarrow> w' < length (workers (task s')) \<Longrightarrow>
       workers (task s') ! w' = InBody i rem' res' \<Longrightarrow> w' = w"
    unfolding eq by (rule D(10))
  show "\<And>i. i < length its \<Longrightarrow> currentIndex (task s') \<le> i \<Longrightarrow> proj i (emitted s') = []"
    unfolding eq by (rule D(11))
  show "\<And>i. finished (task s') i \<Longrightarrow>
       proj i (emitted s') = item_events e answers tgt its i \<and>
       results (task s') ! i = Some (item_result e answers tgt its i)"
    unfolding eq by (rule D(12))
qed

lemma task_inv_settle_step:
  assumes "task_inv e answers tgt its s"
  shows "task_inv e answers tgt its (settle_step jobId s)"
proof (cases "\<not> settled s \<and> list_all (\<lambda>w. w = Returned) (workers (task s))")
  case True
  then have r: "\<forall>w \<in> set (workers (task s)). w = Returned" by (simp add: list_all_iff)
  from True have "settle_step jobId s =
      s\<lparr>jobs := processJob_continue jobId (Inr ()) (jobs s), settled := True\<rparr>"
    by (simp add: settle_step_def)
  then show ?thesis using r by (intro task_inv_cong [OF assms]) simp_all
next
  case False
  then have "settle_step jobId s = s" unfolding settle_step_def by (rule if_not_P)
  then show ?thesis using assms by simp
qed

lemma task_inv_jobs:
  assumes "task_inv e answers tgt its s"
  shows "task_inv e answers tgt its (s\<lparr>jobs := js\<rparr>)"
  using task_invD(8) [OF assms] by (intro task_inv_cong [OF assms]) auto

lemma task_inv_step:
  assumes "task_inv e answers tgt its s"
  shows "task_inv e answers tgt its (step e answers jobId a s)"
proof (cases a)
  case (Worker w)
  then show ?thesis using assms by (simp add: task_inv_worker_step)
next
  case Settle
  then show ?thesis using assms by (simp add: task_inv_settle_step)
next
  case (Delete j)
  then show ?thesis using assms by (simp add: task_inv_jobs)
next
  case (ClearOld now maxAgeMs)
  then show ?thesis using assms by (simp add: task_inv_jobs)
qed

lemma task_inv_run:
  assumes "task_inv e answers tgt its s"
  shows "task_inv e answers tgt its (run e answers jobId acts s)"
  using assms by (induction acts arbitrary: s) (simp_all add: task_inv_step)

subsection \<open>The job record under the steps\<close>

lemma filter_update_irrelevant:
  "i < length xs \<Longrightarrow> \<not> P (xs ! i) \<Longrightarrow> \<not> P x \<Longrightarrow> filter P (xs[i := x]) = filter P xs"
proof (induction xs arbitrary: i)
  case Nil
  then show ?case by simp
next
  case (Cons a xs)
  then show ?case by (cases i) simp_all
qed

lemma length_filter_all:
  "length (filter P xs) = length xs \<Longrightarrow> \<forall>x \<in> set xs. P x"
proof (induction xs)
  case Nil
  then show ?case by simp
next
  case (Cons a xs)
  have le: "length (filter P xs) \<le> length xs" by (rule length_filter_le)
  show ?case
  proof (cases "P a")
    case True
    with Cons.prems have "length (filter P xs) = length xs" by simp
    from Cons.IH [OF this] True show ?thesis by simp
  next
    case False
    with Cons.prems have "length (filter P xs) = Suc (length xs)" by simp
    with le show ?thesis by simp
  qed
qed

lemma map_of_filter_keys:
  "map_of (filter (\<lambda>(k, v). P k) xs) k' = (if P k' then map_of xs k' else None)"
  by (induction xs) auto

lemma map_of_clearOldJobs:
  assumes "map_of (snd (clearOldJobs now maxAgeMs js)) jobId = Some job"
  shows "map_of js jobId = Some job"
proof -
  define K where "K = fst ` set (filter (\<lambda>(jobId, job). job_status job = JobComplete \<and>
      now - createdAt job > maxAgeMs) js)"
  have "snd (clearOldJobs now maxAgeMs js) = filter (\<lambda>(k, j). k \<notin> K) js"
    unfolding clearOldJobs_def clearOldJobs_loop_eq K_def by (rule snd_conv)
  with assms have "map_of (filter (\<lambda>(k, j). k \<notin> K) js) jobId = Some job" by simp
  then have "(if jobId \<notin> K then map_of js jobId else None) = Some job"
    unfolding map_of_filter_keys [of "\<lambda>k. k \<notin> K" js jobId] .
  then show ?thesis by (cases "jobId \<in> K") simp_all
qed

lemma map_of_deleteJob_other:
  "map_of (snd (deleteJob j js)) jobId = Some job \<Longrightarrow> map_of js jobId = Some job"
  by (simp add: deleteJob_def delete_conv' split: if_splits)

lemma onProgress_job_absent:
  "map_of js jobId = None \<Longrightarrow> map_of (onProgress_job jobId ev js) jobId = None"
  by (simp add: onProgress_job_def updateJobItem_absent)

lemma onProgress_job_present:
  assumes "map_of js jobId = Some job" "ev_index ev < length (items job)"
  shows "\<exists>job'. map_of (onProgress_job jobId ev js) jobId = Some job' \<and>
     items job' = (items job)[ev_index ev := (items job ! ev_index ev)
        \<lparr>item_status := ev_status ev, item_progress := ev_progress ev,
         item_message := ev_message ev\<rparr>] \<and>
     totalItems job' = totalItems job \<and>
     completedItems job' =
       (if isTerminal (ev_status ev)
        then length (filter (\<lambda>item. isTerminal (item_status item)) (items job'))
        else completedItems job) \<and>
     job_status job' =
       (if isTerminal (ev_status ev) \<and>
           length (filter (\<lambda>item. isTerminal (item_status item)) (items job')) = totalItems job
        then JobComplete else job_status job)"
  using assms
  by (simp add: onProgress_job_def updateJobItem_def Let_def update_conv' isTerminal_def)

lemma job_invD:
  assumes "job_inv jobId s" "map_of (jobs s) jobId = Some job"
  shows "length (items job) = length (batch_items (task s))"
    "totalItems job = length (items job)"
    "\<And>i. i < length (items job) \<Longrightarrow>
       item_status (items job ! i) =
         (if proj i (emitted s) = [] then ItemPending else ev_status (last (proj i (emitted s))))"
    "completedItems job = length (filter (\<lambda>item. isTerminal (item_status item)) (items job))"
    "\<And>i. job_status job = JobComplete \<Longrightarrow> i < length (items job) \<Longrightarrow> finished (task s) i"
proof -
  from assms have a: "length (items job) = length (batch_items (task s)) \<and>
        totalItems job = length (items job) \<and>
        (\<forall>i < length (items job).
           item_status (items job ! i) =
             (if proj i (emitted s) = [] then ItemPending
              else ev_status (last (proj i (emitted s))))) \<and>
        completedItems job =
          length (filter (\<lambda>item. isTerminal (item_status item)) (items job)) \<and>
        (job_status job = JobComplete \<longrightarrow>
           (\<forall>i < length (items job). finished (task s) i))"
    unfolding job_inv_def by blast
  show "length (items job) = length (batch_items (task s))" using a by (elim conjE)
  show "totalItems job = length (items job)" using a by (elim conjE)
  show "\<And>i. i < length (items job) \<Longrightarrow>
       item_status (items job ! i) =
         (if proj i (emitted s) = [] then ItemPending else ev_status (last (proj i (emitted s))))"
    using a by (elim conjE) blast
  show "completedItems job = length (filter (\<lambda>item. isTerminal (item_status item)) (items job))"
    using a by (elim conjE)
  show "\<And>i. job_status job = JobComplete \<Longrightarrow> i < length (items job) \<Longrightarrow> finished (task s) i"
    using a by (elim conjE) blast
qed

lemma job_invI:
  assumes "\<And>job. map_of (jobs s) jobId = Some job \<Longrightarrow>
      length (items job) = length (batch_items (task s)) \<and>
      totalItems job = length (items job) \<and>
      (\<forall>i < length (items job).
         item_status (items job ! i) =
           (if proj i (emitted s) = [] then ItemPending
            else ev_status (last (proj i (emitted s))))) \<and>
      completedItems job =
        length (filter (\<lambda>item. isTerminal (item_status item)) (items job)) \<and>
      (job_status job = JobComplete \<longrightarrow>
         (\<forall>i < length (items job). finished (task s) i))"
  shows "job_inv jobId s"
  unfolding job_inv_def using assms by blast

text \<open>An item in a terminal status is finished, and conversely.\<close>

lemma terminal_finished:
  assumes tinv: "task_inv e answers tgt its s"
    and st: "st = (if proj j (emitted s) = [] then ItemPending
                   else ev_status (last (proj j (emitted s))))"
    and j: "j < length its" and t: "isTerminal st"
  shows "finished (task s) j"
proof -
  note D = task_invD [OF tinv]
  from st t have ne: "proj j (emitted s) \<noteq> []"
    and l: "isTerminal (ev_status (last (proj j (emitted s))))"
    by (auto simp: isTerminal_def split: if_splits)
  have lt: "j < currentIndex (task s)"
  proof (rule ccontr)
    assume "\<not> j < currentIndex (task s)"
    with D(11) [OF j] ne show False by simp
  qed
  have "\<not> in_body (task s) j"
  proof
    assume "in_body (task s) j"
    then obtain u rem res where u: "u < length (workers (task s))"
      "workers (task s) ! u = InBody j rem res"
      unfolding in_body_nth by blast
    from D(9) [OF u] have rem: "rem \<noteq> []"
      and ev: "item_events e answers tgt its j = proj j (emitted s) @ rem"
      by simp_all
    from item_events_well_formed [OF D(5) [OF j], of e answers tgt]
    have "well_formed_events j (proj j (emitted s) @ rem)
        (res_success (item_result e answers tgt its j))"
      unfolding ev .
    from well_formed_prefix(1) [OF this rem] ne
    have "ev_status (last (proj j (emitted s))) = ItemProcessing" by simp
    with l show False by (simp add: isTerminal_def)
  qed
  with lt show ?thesis by (simp add: finished_def)
qed

lemma finished_terminal:
  assumes tinv: "task_inv e answers tgt its s" and f: "finished (task s) j"
  shows "proj j (emitted s) \<noteq> [] \<and> isTerminal (ev_status (last (proj j (emitted s))))"
proof -
  note D = task_invD [OF tinv]
  from f D(4) have j: "j < length its" by (simp add: finished_def)
  from D(12) [OF f] have ev: "proj j (emitted s) = item_events e answers tgt its j" by simp
  from item_events_well_formed [OF D(5) [OF j], of e answers tgt]
  show ?thesis unfolding ev by (simp add: well_formed_events_def isTerminal_def)
qed

lemma worker_step_empty:
  assumes "w < length (workers (task s))" "workers (task s) ! w = InBody i [] res"
  shows "worker_step e answers jobId w s =
      s\<lparr>task := (task s)\<lparr>workers := (workers (task s))[w := AtLoopHead],
                         results := (results (task s))[i := Some res]\<rparr>\<rparr>"
  using assms by (simp add: worker_step_def Let_def)

lemma worker_step_in_body:
  assumes "in_body (task (worker_step e answers jobId w s)) j"
  shows "in_body (task s) j \<or> j = currentIndex (task s)"
proof (cases rule: worker_step_cases [of w s])
  case idle
  with assms show ?thesis by (simp add: worker_step_idle)
next
  case claim
  from assms obtain evs res where
    "InBody j evs res \<in> set (workers (task (worker_step e answers jobId w s)))"
    unfolding in_body_def by blast
  then show ?thesis
    unfolding worker_step_claim [OF claim] in_body_def
    using set_update_subset_insert [of "workers (task s)" w] by auto
next
  case return
  from assms obtain evs res where
    "InBody j evs res \<in> set (workers (task (worker_step e answers jobId w s)))"
    unfolding in_body_def by blast
  then show ?thesis
    unfolding worker_step_return [OF return] in_body_def
    using set_update_subset_insert [of "workers (task s)" w] by auto
next
  case (emit i ev ev' evs res)
  from assms obtain evs0 res0 where
    "InBody j evs0 res0 \<in> set (workers (task (worker_step e answers jobId w s)))"
    unfolding in_body_def by blast
  then have "InBody j evs0 res0 \<in> set (workers (task s)) \<or> j = i"
    unfolding worker_step_emit [OF emit]
    using set_update_subset_insert [of "workers (task s)" w] by auto
  moreover have "in_body (task s) i" unfolding in_body_nth using emit by blast
  ultimately show ?thesis unfolding in_body_def by blast
next
  case (last i ev res)
  from assms obtain evs0 res0 where
    "InBody j evs0 res0 \<in> set (workers (task (worker_step e answers jobId w s)))"
    unfolding in_body_def by blast
  then show ?thesis
    unfolding worker_step_last [OF last] in_body_def
    using set_update_subset_insert [of "workers (task s)" w] by auto
next
  case (empty i res)
  from assms obtain evs0 res0 where
    "InBody j evs0 res0 \<in> set (workers (task (worker_step e answers jobId w s)))"
    unfolding in_body_def by blast
  then show ?thesis
    unfolding worker_step_empty [OF empty] in_body_def
    using set_update_subset_insert [of "workers (task s)" w] by auto
qed

lemma worker_step_currentIndex:
  "currentIndex (task s) \<le> currentIndex (task (worker_step e answers jobId w s))"
proof (cases rule: worker_step_cases [of w s])
  case idle
  then show ?thesis by (simp add: worker_step_idle)
next
  case claim
  show ?thesis unfolding worker_step_claim [OF claim] by simp
next
  case return
  show ?thesis unfolding worker_step_return [OF return] by simp
next
  case (emit i ev ev' evs res)
  show ?thesis unfolding worker_step_emit [OF emit] by simp
next
  case (last i ev res)
  show ?thesis unfolding worker_step_last [OF last] by simp
next
  case (empty i res)
  show ?thesis unfolding worker_step_empty [OF empty] by simp
qed

lemma worker_step_finished:
  assumes "finished (task s) j"
  shows "finished (task (worker_step e answers jobId w s)) j"
  using assms worker_step_in_body [of e answers jobId w s j]
    worker_step_currentIndex [of s e answers jobId w]
  unfolding finished_def by auto

lemma job_inv_task_only:
  assumes jinv: "job_inv jobId s" and eq: "jobs s' = jobs s" "emitted s' = emitted s"
    "batch_items (task s') = batch_items (task s)"
    and fin: "\<And>j. finished (task s) j \<Longrightarrow> finished (task s') j"
  shows "job_inv jobId s'"
proof (rule job_invI)
  fix job assume "map_of (jobs s') jobId = Some job"
  then have p: "map_of (jobs s) jobId = Some job" unfolding eq .
  note D = job_invD [OF jinv p]
  show "length (items job) = length (batch_items (task s')) \<and>
      totalItems job = length (items job) \<and>
      (\<forall>i < length (items job).
         item_status (items job ! i) =
           (if proj i (emitted s') = [] then ItemPending
            else ev_status (last (proj i (emitted s'))))) \<and>
      completedItems job =
        length (filter (\<lambda>item. isTerminal (item_status item)) (items job)) \<and>
      (job_status job = JobComplete \<longrightarrow>
         (\<forall>i < length (items job). finished (task s') i))"
    unfolding eq using D(1,2,3,4) D(5) fin by blast
qed

lemma job_inv_deliver:
  assumes tinv: "task_inv e answers tgt its s" and tinv': "task_inv e answers tgt its s'"
    and jinv: "job_inv jobId s"
    and w: "w < length (workers (task s))" "workers (task s) ! w = InBody i (ev # rest) res"
    and s': "jobs s' = onProgress_job jobId ev (jobs s)" "emitted s' = emitted s @ [ev]"
  shows "job_inv jobId s'"
proof (rule job_invI)
  fix job' assume p': "map_of (jobs s') jobId = Some job'"
  note T = task_invD [OF tinv]
  note T' = task_invD [OF tinv']
  from T(9) [OF w] have i: "i < currentIndex (task s)"
    and ev: "item_events e answers tgt its i = proj i (emitted s) @ ev # rest"
    by simp_all
  have il: "i < length its" using i T(4) by simp
  have wf: "well_formed_events i (proj i (emitted s) @ ev # rest)
      (res_success (item_result e answers tgt its i))"
    using item_events_well_formed [OF T(5) [OF il], of e answers tgt] unfolding ev .
  have evi: "ev_index ev = i" using well_formed_prefix(2) [OF wf] by simp
  have before: "\<forall>x \<in> set (proj i (emitted s)). ev_status x = ItemProcessing"
    using well_formed_prefix(1) [OF wf] by simp
  obtain job where p: "map_of (jobs s) jobId = Some job"
    using p' onProgress_job_absent [of "jobs s" jobId ev] unfolding s'(1)
    by (cases "map_of (jobs s) jobId") simp_all
  note D = job_invD [OF jinv p]
  have len: "length (items job) = length its" using D(1) T(1) by simp
  have "ev_index ev < length (items job)" using evi il len by simp
  from onProgress_job_present [OF p this] p' [unfolded s'(1)]
  have items': "items job' = (items job)[i := (items job ! i)
        \<lparr>item_status := ev_status ev, item_progress := ev_progress ev,
         item_message := ev_message ev\<rparr>]"
    and total': "totalItems job' = totalItems job"
    and completed': "completedItems job' =
       (if isTerminal (ev_status ev)
        then length (filter (\<lambda>item. isTerminal (item_status item)) (items job'))
        else completedItems job)"
    and status': "job_status job' =
       (if isTerminal (ev_status ev) \<and>
           length (filter (\<lambda>item. isTerminal (item_status item)) (items job')) = totalItems job
        then JobComplete else job_status job)"
    unfolding evi by auto
  have len': "length (items job') = length its" unfolding items' using len by simp
  have old_status: "\<not> isTerminal (item_status (items job ! i))"
  proof (cases "proj i (emitted s) = []")
    case True
    with D(3) [of i] il len show ?thesis by (simp add: isTerminal_def)
  next
    case False
    then have "last (proj i (emitted s)) \<in> set (proj i (emitted s))" by simp
    with before have "ev_status (last (proj i (emitted s))) = ItemProcessing" by blast
    with D(3) [of i] il len False show ?thesis by (simp add: isTerminal_def)
  qed
  have J2: "\<forall>j < length (items job').
         item_status (items job' ! j) =
           (if proj j (emitted s') = [] then ItemPending
            else ev_status (last (proj j (emitted s'))))"
  proof (intro allI impI)
    fix j assume j: "j < length (items job')"
    show "item_status (items job' ! j) =
           (if proj j (emitted s') = [] then ItemPending
            else ev_status (last (proj j (emitted s'))))"
    proof (cases "j = i")
      case True
      then show ?thesis unfolding items' s'(2) using il len evi by simp
    next
      case False
      with D(3) [of j] j len len' show ?thesis unfolding items' s'(2) using evi by simp
    qed
  qed
  have J3: "completedItems job' =
        length (filter (\<lambda>item. isTerminal (item_status item)) (items job'))"
  proof (cases "isTerminal (ev_status ev)")
    case True
    then show ?thesis using completed' by simp
  next
    case False
    have "filter (\<lambda>item. isTerminal (item_status item)) (items job') =
        filter (\<lambda>item. isTerminal (item_status item)) (items job)"
      unfolding items' using il len old_status False
      by (intro filter_update_irrelevant) simp_all
    with False completed' D(4) show ?thesis by simp
  qed
  have J4: "job_status job' = JobComplete \<longrightarrow>
         (\<forall>j < length (items job'). finished (task s') j)"
  proof (intro impI allI)
    fix j assume c: "job_status job' = JobComplete" and j: "j < length (items job')"
    have "job_status job \<noteq> JobComplete"
    proof
      assume "job_status job = JobComplete"
      from D(5) [OF this, of i] il len have "finished (task s) i" by simp
      moreover have "in_body (task s) i" unfolding in_body_nth using w by blast
      ultimately show False by (simp add: finished_def)
    qed
    with c status' have "length (filter (\<lambda>item. isTerminal (item_status item)) (items job')) =
        length (items job')"
      using total' D(2) len len' by (simp split: if_splits)
    from length_filter_all [OF this] j have t: "isTerminal (item_status (items job' ! j))"
      by simp
    from J2 j have "item_status (items job' ! j) =
           (if proj j (emitted s') = [] then ItemPending
            else ev_status (last (proj j (emitted s'))))"
      by blast
    from terminal_finished [OF tinv' this _ t] j len' show "finished (task s') j" by simp
  qed
  show "length (items job') = length (batch_items (task s')) \<and>
      totalItems job' = length (items job') \<and>
      (\<forall>i < length (items job').
         item_status (items job' ! i) =
           (if proj i (emitted s') = [] then ItemPending
            else ev_status (last (proj i (emitted s'))))) \<and>
      completedItems job' =
        length (filter (\<lambda>item. isTerminal (item_status item)) (items job')) \<and>
      (job_status job' = JobComplete \<longrightarrow>
         (\<forall>i < length (items job'). finished (task s') i))"
    using len' T'(1) total' D(2) len J2 J3 J4 by simp
qed

lemma job_inv_worker_step:
  assumes tinv: "task_inv e answers tgt its s" and jinv: "job_inv jobId s"
  shows "job_inv jobId (worker_step e answers jobId w s)"
proof -
  note tinv' = task_inv_worker_step [OF tinv, of jobId w]
  note fin = worker_step_finished [of s _ e answers jobId w]
  show ?thesis
  proof (cases rule: worker_step_cases [of w s])
    case idle
    then show ?thesis using jinv by (simp add: worker_step_idle)
  next
    case claim
    show ?thesis
      by (rule job_inv_task_only [OF jinv _ _ _ fin])
         (simp_all add: worker_step_claim [OF claim])
  next
    case return
    show ?thesis
      by (rule job_inv_task_only [OF jinv _ _ _ fin])
         (simp_all add: worker_step_return [OF return])
  next
    case (emit i ev ev' evs res)
    show ?thesis
      by (rule job_inv_deliver [OF tinv tinv' jinv emit])
         (simp_all add: worker_step_emit [OF emit])
  next
    case (last i ev res)
    show ?thesis
      by (rule job_inv_deliver [OF tinv tinv' jinv last])
         (simp_all add: worker_step_last [OF last])
  next
    case (empty i res)
    show ?thesis
      by (rule job_inv_task_only [OF jinv _ _ _ fin])
         (simp_all add: worker_step_empty [OF empty])
  qed
qed

lemma length_workers_worker_step:
  "length (workers (task (worker_step e answers jobId w s))) = length (workers (task s))"
proof (cases rule: worker_step_cases [of w s])
  case idle
  then show ?thesis by (simp add: worker_step_idle)
next
  case claim
  show ?thesis unfolding worker_step_claim [OF claim] by simp
next
  case return
  show ?thesis unfolding worker_step_return [OF return] by simp
next
  case (emit i ev ev' evs res)
  show ?thesis unfolding worker_step_emit [OF emit] by simp
next
  case (last i ev res)
  show ?thesis unfolding worker_step_last [OF last] by simp
next
  case (empty i res)
  show ?thesis unfolding worker_step_empty [OF empty] by simp
qed

lemma length_workers_step:
  "length (workers (task (step e answers jobId a s))) = length (workers (task s))"
proof (cases a)
  case (Worker w)
  then show ?thesis by (simp add: length_workers_worker_step)
next
  case Settle
  then show ?thesis by (simp add: settle_step_def)
qed simp_all

lemma length_workers_run:
  "length (workers (task (run e answers jobId acts s))) = length (workers (task s))"
  by (induction acts arbitrary: s) (simp_all add: length_workers_step)

lemma staffed_step:
  assumes tinv: "task_inv e answers tgt its s" and st: "staffed s"
  shows "staffed (step e answers jobId a s)"
proof -
  from task_invD(1) [OF tinv] task_invD(1) [OF task_inv_step [OF tinv, of jobId a]]
  have "batch_items (task (step e answers jobId a s)) = batch_items (task s)" by simp
  moreover from length_workers_step [of e answers jobId a s]
  have "workers (task (step e answers jobId a s)) = [] \<longleftrightarrow> workers (task s) = []"
    by (simp only: length_0_conv [symmetric])
  ultimately show ?thesis using st unfolding staffed_def by simp
qed

lemma all_returned_finished:
  assumes tinv: "task_inv e answers tgt its s" and st: "staffed s"
    and r: "\<forall>x \<in> set (workers (task s)). x = Returned" and j: "j < length its"
  shows "finished (task s) j"
proof -
  note T = task_invD [OF tinv]
  from j have "its \<noteq> []" by auto
  with st T(1) have "workers (task s) \<noteq> []" by (simp add: staffed_def)
  then obtain x where "x \<in> set (workers (task s))"
    by (cases "workers (task s)") auto
  with r have "Returned \<in> set (workers (task s))" by auto
  from T(7) [OF this] j have "j < currentIndex (task s)" by simp
  moreover have "\<not> in_body (task s) j" unfolding in_body_def using r by auto
  ultimately show ?thesis by (simp add: finished_def)
qed

lemma job_inv_settle_step:
  assumes tinv: "task_inv e answers tgt its s" and sf: "staffed s" and jinv: "job_inv jobId s"
  shows "job_inv jobId (settle_step jobId s)"
proof (cases "\<not> settled s \<and> list_all (\<lambda>w. w = Returned) (workers (task s))")
  case False
  then have "settle_step jobId s = s" unfolding settle_step_def by (rule if_not_P)
  with jinv show ?thesis by simp
next
  case True
  then have r: "\<forall>x \<in> set (workers (task s)). x = Returned" by (simp add: list_all_iff)
  from True have st: "settle_step jobId s =
      s\<lparr>jobs := processJob_continue jobId (Inr ()) (jobs s), settled := True\<rparr>"
    by (simp add: settle_step_def)
  note T = task_invD [OF tinv]
  show ?thesis
    unfolding st
  proof (rule job_invI)
    fix job'
    assume "map_of (jobs (s\<lparr>jobs := processJob_continue jobId (Inr ()) (jobs s),
        settled := True\<rparr>)) jobId = Some job'"
    then have p': "map_of (processJob_continue jobId (Inr ()) (jobs s)) jobId = Some job'"
      by simp
    then obtain job where p: "map_of (jobs s) jobId = Some job"
      and j': "job' = job\<lparr>job_status := JobComplete\<rparr>"
      by (cases "map_of (jobs s) jobId")
         (auto simp: processJob_continue_def update_conv')
    note D = job_invD [OF jinv p]
    have "\<forall>i < length (items job). finished (task s) i"
      using all_returned_finished [OF tinv sf r] D(1) T(1) by simp
    then show "length (items job') =
        length (batch_items (task (s\<lparr>jobs := processJob_continue jobId (Inr ()) (jobs s),
          settled := True\<rparr>))) \<and>
      totalItems job' = length (items job') \<and>
      (\<forall>i < length (items job').
         item_status (items job' ! i) =
           (if proj i (emitted (s\<lparr>jobs := processJob_continue jobId (Inr ()) (jobs s),
                 settled := True\<rparr>)) = [] then ItemPending
            else ev_status (last (proj i (emitted (s\<lparr>jobs := processJob_continue jobId (Inr ()) (jobs s),
                 settled := True\<rparr>)))))) \<and>
      completedItems job' =
        length (filter (\<lambda>item. isTerminal (item_status item)) (items job')) \<and>
      (job_status job' = JobComplete \<longrightarrow>
         (\<forall>i < length (items job').
            finished (task (s\<lparr>jobs := processJob_continue jobId (Inr ()) (jobs s),
              settled := True\<rparr>)) i))"
      unfolding j' using D(1,2,4) D(3) by simp
  qed
qed

lemma job_inv_jobs_shrink:
  assumes jinv: "job_inv jobId s"
    and sub: "\<And>job. map_of js jobId = Some job \<Longrightarrow> map_of (jobs s) jobId = Some job"
  shows "job_inv jobId (s\<lparr>jobs := js\<rparr>)"
proof (rule job_invI)
  fix job assume "map_of (jobs (s\<lparr>jobs := js\<rparr>)) jobId = Some job"
  then have "map_of (jobs s) jobId = Some job" using sub by simp
  note D = job_invD [OF jinv this]
  show "length (items job) = length (batch_items (task (s\<lparr>jobs := js\<rparr>))) \<and>
      totalItems job = length (items job) \<and>
      (\<forall>i < length (items job).
         item_status (items job ! i) =
           (if proj i (emitted (s\<lparr>jobs := js\<rparr>)) = [] then ItemPending
            else ev_status (last (proj i (emitted (s\<lparr>jobs := js\<rparr>)))))) \<and>
      completedItems job =
        length (filter (\<lambda>item. isTerminal (item_status item)) (items job)) \<and>
      (job_status job = JobComplete \<longrightarrow>
         (\<forall>i < length (items job). finished (task (s\<lparr>jobs := js\<rparr>)) i))"
    using D(1,2,4) D(3) D(5) by simp
qed

lemma job_inv_step:
  assumes tinv: "task_inv e answers tgt its s" and st: "staffed s" and jinv: "job_inv jobId s"
  shows "job_inv jobId (step e answers jobId a s)"
proof (cases a)
  case (Worker w)
  then show ?thesis using job_inv_worker_step [OF tinv jinv] by simp
next
  case Settle
  then show ?thesis using job_inv_settle_step [OF tinv st jinv] by simp
next
  case (Delete j)
  have "job_inv jobId (s\<lparr>jobs := snd (deleteJob j (jobs s))\<rparr>)"
    by (rule job_inv_jobs_shrink [OF jinv]) (rule map_of_deleteJob_other)
  with Delete show ?thesis by simp
next
  case (ClearOld now maxAgeMs)
  have "job_inv jobId (s\<lparr>jobs := snd (clearOldJobs now maxAgeMs (jobs s))\<rparr>)"
    by (rule job_inv_jobs_shrink [OF jinv]) (rule map_of_clearOldJobs)
  with ClearOld show ?thesis by simp
qed

lemma invariants_run:
  assumes "task_inv e answers tgt its s" "staffed s" "job_inv jobId s"
  shows "task_inv e answers tgt its (run e answers jobId acts s) \<and>
         job_inv jobId (run e answers jobId acts s)"
  using assms
proof (induction acts arbitrary: s)
  case Nil
  then show ?case by simp
next
  case (Cons a acts)
  from Cons.prems have "task_inv e answers tgt its (step e answers jobId a s)"
    "staffed (step e answers jobId a s)"
    "job_inv jobId (step e answers jobId a s)"
    by (simp_all add: task_inv_step job_inv_step staffed_step)
  from Cons.IH [OF this] show ?case by simp
qed

subsection \<open>The state after \<^verbatim>\<open>createJob\<close>\<close>

lemma createJob_Inr:
  assumes "createJob e m urls tf tn c js = (fx, Inr (jobId, s))"
  shows "\<exists>folderId.
     s = \<lparr>jobs = AList.update jobId
            \<lparr>job_id = jobId, job_status = JobProcessing, totalItems = length urls,
             completedItems = 0,
             items = map (\<lambda>(index, url).
                       \<lparr>item_index = index, item_url = url, item_status = ItemPending,
                        item_progress = 0, item_message = str ''Waiting...''\<rparr>)
                     (enumerate 0 urls),
             job_targetFolderId = folderId, createdAt = created_ms m\<rparr> js,
          task = batchCopy_start urls folderId c, settled = False, emitted = []\<rparr>"
  using assms
  by (auto simp: createJob_def Let_def split: prod.splits sum.splits if_splits)

lemma it_index_parse_items:
  "i < length urls \<Longrightarrow> it_index (parse_items urls ! i) = i"
  by (simp add: parse_items_def nth_enumerate_eq)

lemma batchCopy_start_simps:
  "batch_items (batchCopy_start urls t c) = parse_items urls"
  "batch_target (batchCopy_start urls t c) = t"
  "currentIndex (batchCopy_start urls t c) = 0"
  "results (batchCopy_start urls t c) = replicate (length urls) None"
  "workers (batchCopy_start urls t c) =
     replicate (ToLength (Math_min (safeConcurrency c) (Num (real (length urls))))) AtLoopHead"
  by (simp_all add: batchCopy_start_def Let_def length_parse_items)

lemma staffed_start:
  assumes "task s = batchCopy_start urls t c" "c \<noteq> NaN"
  shows "staffed s"
proof (cases "urls = []")
  case True
  then show ?thesis by (simp add: staffed_def assms(1) batchCopy_start_simps parse_items_def)
next
  case False
  from safeConcurrency_range [OF assms(2)] obtain r where
    r: "safeConcurrency c = Num r" "1 \<le> r" "r \<le> 10"
    by blast
  from False have "0 < length urls" by simp
  moreover from r(2) have "0 < nat \<lfloor>r\<rfloor>" by linarith
  ultimately have "0 < min (nat \<lfloor>r\<rfloor>) (length urls)" by simp
  then show ?thesis
    unfolding staffed_def assms(1) workers_batchCopy_start_Num [OF r] by auto
qed

lemma task_inv_start:
  assumes "task s = batchCopy_start urls t c" "emitted s = []" "\<not> settled s"
  shows "task_inv e answers t (parse_items urls) s"
proof (rule task_invI)
  note b = batchCopy_start_simps [of urls t c]
  show "batch_items (task s) = parse_items urls" "batch_target (task s) = t"
    unfolding assms(1) by (rule b)+
  show "length (results (task s)) = length (parse_items urls)"
    unfolding assms(1) b by (simp add: length_parse_items)
  show "currentIndex (task s) \<le> length (parse_items urls)"
    unfolding assms(1) b by simp
  show "\<And>i. i < length (parse_items urls) \<Longrightarrow> it_index (parse_items urls ! i) = i"
    by (simp add: length_parse_items it_index_parse_items)
  show "workers (task s) = [] \<Longrightarrow> currentIndex (task s) = 0"
    unfolding assms(1) b by simp
  show "Returned \<in> set (workers (task s)) \<Longrightarrow> currentIndex (task s) = length (parse_items urls)"
    unfolding assms(1) b by simp
  show "\<And>x. settled s \<Longrightarrow> x \<in> set (workers (task s)) \<Longrightarrow> x = Returned"
    using assms(3) by simp
  show "\<And>w i rem res. w < length (workers (task s)) \<Longrightarrow> workers (task s) ! w = InBody i rem res \<Longrightarrow>
       i < currentIndex (task s) \<and> rem \<noteq> [] \<and>
       item_events e answers t (parse_items urls) i = proj i (emitted s) @ rem \<and>
       res = item_result e answers t (parse_items urls) i"
    unfolding assms(1) b by simp
  show "\<And>w w' i rem res rem' res'. w < length (workers (task s)) \<Longrightarrow>
       workers (task s) ! w = InBody i rem res \<Longrightarrow> w' < length (workers (task s)) \<Longrightarrow>
       workers (task s) ! w' = InBody i rem' res' \<Longrightarrow> w' = w"
    unfolding assms(1) b by simp
  show "\<And>i. i < length (parse_items urls) \<Longrightarrow> currentIndex (task s) \<le> i \<Longrightarrow>
       proj i (emitted s) = []"
    unfolding assms(2) by simp
  show "\<And>i. finished (task s) i \<Longrightarrow>
       proj i (emitted s) = item_events e answers t (parse_items urls) i \<and>
       results (task s) ! i = Some (item_result e answers t (parse_items urls) i)"
    unfolding assms(1) finished_def b by simp
qed

lemma createJob_invariants:
  assumes "createJob e m urls tf tn c js = (fx, Inr (jobId, s))"
  shows "task_inv e answers (batch_target (task s)) (parse_items urls) s \<and> job_inv jobId s"
proof -
  from createJob_Inr [OF assms] obtain folderId where
    s: "s = \<lparr>jobs = AList.update jobId
            \<lparr>job_id = jobId, job_status = JobProcessing, totalItems = length urls,
             completedItems = 0,
             items = map (\<lambda>(index, url).
                       \<lparr>item_index = index, item_url = url, item_status = ItemPending,
                        item_progress = 0, item_message = str ''Waiting...''\<rparr>)
                     (enumerate 0 urls),
             job_targetFolderId = folderId, createdAt = created_ms m\<rparr> js,
          task = batchCopy_start urls folderId c, settled = False, emitted = []\<rparr>"
    by blast
  have t: "task s = batchCopy_start urls folderId c" "emitted s = []" "\<not> settled s"
    unfolding s by simp_all
  have 1: "task_inv e answers (batch_target (task s)) (parse_items urls) s"
    using task_inv_start [OF t] unfolding t(1) batchCopy_start_simps .
  have 2: "job_inv jobId s"
  proof (rule job_invI)
    fix job assume "map_of (jobs s) jobId = Some job"
    then have j: "job = \<lparr>job_id = jobId, job_status = JobProcessing, totalItems = length urls,
             completedItems = 0,
             items = map (\<lambda>(index, url).
                       \<lparr>item_index = index, item_url = url, item_status = ItemPending,
                        item_progress = 0, item_message = str ''Waiting...''\<rparr>)
                     (enumerate 0 urls),
             job_targetFolderId = folderId, createdAt = created_ms m\<rparr>"
      unfolding s by (simp add: update_conv')
    have st: "\<forall>i < length urls. item_status (items job ! i) = ItemPending"
      unfolding j by (simp add: nth_enumerate_eq)
    have "filter (\<lambda>item. isTerminal (item_status item)) (items job) = []"
      unfolding j filter_empty_conv by (auto simp: isTerminal_def)
    then have c: "completedItems job =
        length (filter (\<lambda>item. isTerminal (item_status item)) (items job))"
      unfolding j by simp
    have l: "length (items job) = length urls" "totalItems job = length urls"
      "job_status job \<noteq> JobComplete"
      unfolding j by simp_all
    show "length (items job) = length (batch_items (task s)) \<and>
      totalItems job = length (items job) \<and>
      (\<forall>i < length (items job).
         item_status (items job ! i) =
           (if proj i (emitted s) = [] then ItemPending
            else ev_status (last (proj i (emitted s))))) \<and>
      completedItems job =
        length (filter (\<lambda>item. isTerminal (item_status item)) (items job)) \<and>
      (job_status job = JobComplete \<longrightarrow>
         (\<forall>i < length (items job). finished (task s) i))"
      unfolding t batchCopy_start_simps using st c l by (simp add: length_parse_items)
  qed
  from 1 2 show ?thesis ..
qed

lemma createJob_staffed:
  assumes "createJob e m urls tf tn c js = (fx, Inr (jobId, s))" "c \<noteq> NaN"
  shows "staffed s"
proof -
  from createJob_Inr [OF assms(1)] obtain folderId where
    "task s = batchCopy_start urls folderId c"
    by auto
  from staffed_start [OF this assms(2)] show ?thesis .
qed

lemma run_task_inv:
  assumes "createJob e m urls tf tn c js = (fx, Inr (jobId, s0))"
  shows "task_inv e answers (batch_target (task s0)) (parse_items urls)
           (run e answers jobId acts s0)"
  using createJob_invariants [OF assms, of answers] by (intro task_inv_run) simp

lemma run_invariants:
  assumes "createJob e m urls tf tn c js = (fx, Inr (jobId, s0))" "c \<noteq> NaN"
  shows "task_inv e answers (batch_target (task s0)) (parse_items urls)
           (run e answers jobId acts s0) \<and>
         job_inv jobId (run e answers jobId acts s0)"
  using createJob_invariants [OF assms(1), of answers] createJob_staffed [OF assms]
  by (intro invariants_run) simp_all

section \<open>A complete job\<close>

text \<open>
  When the concurrency is not \<^verbatim>\<open>NaN\<close>, a job made by \<^verbatim>\<open>createJob\<close> keeps its counters
  right under every sequence of steps, and is complete only when every item is in
  status success or error.
\<close>

lemma complete_job_numeric_concurrency:
  assumes c: "createJob e m urls tf tn c js = (fx, Inr (jobId, s0))" and n: "c \<noteq> NaN"
    and g: "getJob (jobs (run e answers jobId acts s0)) jobId = Some job"
  shows "completedItems job =
           length (filter (\<lambda>item. isTerminal (item_status item)) (items job))"
    and "totalItems job = length urls" and "length (items job) = length urls"
    and "job_status job = JobComplete \<Longrightarrow>
           completedItems job = totalItems job \<and>
           list_all (\<lambda>item. item_status item = ItemSuccess \<or> item_status item = ItemError)
             (items job)"
proof -
  let ?s = "run e answers jobId acts s0"
  from run_invariants [OF c n, of answers acts]
  have tinv: "task_inv e answers (batch_target (task s0)) (parse_items urls) ?s"
    and jinv: "job_inv jobId ?s"
    by simp_all
  from g have p: "map_of (jobs ?s) jobId = Some job" by (simp add: getJob_def)
  note D = job_invD [OF jinv p]
  note T = task_invD [OF tinv]
  show 3: "completedItems job =
           length (filter (\<lambda>item. isTerminal (item_status item)) (items job))"
    by (rule D(4))
  show 2: "length (items job) = length urls" using D(1) T(1) by (simp add: length_parse_items)
  show 1: "totalItems job = length urls" using D(2) 2 by simp
  show "completedItems job = totalItems job \<and>
           list_all (\<lambda>item. item_status item = ItemSuccess \<or> item_status item = ItemError)
             (items job)" if st: "job_status job = JobComplete"
  proof -
    have t: "isTerminal (item_status (items job ! i))" if "i < length (items job)" for i
    proof -
      from D(5) [OF st that] have "finished (task ?s) i" .
      from finished_terminal [OF tinv this] D(3) [OF that] show ?thesis by simp
    qed
    then have all: "\<forall>item \<in> set (items job). isTerminal (item_status item)"
      by (auto simp: in_set_conv_nth)
    then have "filter (\<lambda>item. isTerminal (item_status item)) (items job) = items job"
      by simp
    with 3 D(2) have "completedItems job = totalItems job" by simp
    with all show ?thesis by (simp add: list_all_iff isTerminal_def)
  qed
qed

lemma parse_not_a_url: "parseGoogleDriveUrl (str ''not-a-url'') = None"
proof -
  have i: "list_all isIdChar (str ''not-a-url'')"
    by (simp add: str_def isIdChar_def)
  have t: "trim (str ''not-a-url'') = str ''not-a-url''"
    by (rule trim_id) (simp_all add: str_def isWhiteSpace_def isLineTerminator_def)
  have l: "\<not> 25 \<le> length (str ''not-a-url'')"
    by (simp add: str_def)
  show ?thesis
    unfolding parse_cases t using bare_no_match [OF i] l by simp
qed

lemma parse_file_AAAA:
  "parseGoogleDriveUrl (str ''https://drive.google.com/file/d/AAAA/view'') =
     Some \<lparr>parsed_id = str ''AAAA'', parsed_type = File\<rparr>"
proof -
  have e: "str ''https://drive.google.com/file/d/AAAA/view'' =
           str ''https://drive.google.com/file/d/'' @ str ''AAAA'' @ str ''/view''"
    by (simp add: str_def)
  show ?thesis
    unfolding e by (rule shape_file) (simp_all add: str_def isIdChar_def)
qed

lemma parse_items_two:
  "parse_items urls_two =
     [item_file, \<lparr>it_url = str ''not-a-url'', it_index = 1, it_parsed = None\<rparr>]"
  by (simp add: parse_items_def urls_two_def item_file_def parse_not_a_url parse_file_AAAA)


lemma batchCopy_start_two:
  "batchCopy_start urls_two (str ''T1'') (Num 10) =
     \<lparr>batch_items = [item_file, \<lparr>it_url = str ''not-a-url'', it_index = 1, it_parsed = None\<rparr>],
      batch_target = str ''T1'', currentIndex = 0, workers = [AtLoopHead, AtLoopHead],
      results = [None, None]\<rparr>"
proof -
  have "ToLength (Math_min (safeConcurrency (Num 10))
      (Num (real (length (parse_items urls_two))))) = 2"
    by (simp add: safeConcurrency_Num parse_items_two)
  then show ?thesis
    unfolding batchCopy_start_def Let_def parse_items_two
    by (simp add: urls_two_def numeral_2_eq_2)
qed

lemma generateJobId_moment_ok: "generateJobId moment_ok = str ''copy_7_k3x9''"
  by (simp add: generateJobId_def moment_ok_def digits.simps str_def)

lemma createJob_two:
  "createJob env_ok moment_ok urls_two (Some (str ''T1'')) None (Num 10) [] =
     ([], Inr (str ''copy_7_k3x9'', system_two))"
proof -
  have t: "or_else (Some (str ''T1'')) [] = str ''T1''" "str ''T1'' \<noteq> []"
    by (simp_all add: or_else_def str_def)
  have u: "enumerate 0 urls_two =
      [(0, str ''https://drive.google.com/file/d/AAAA/view''), (1, str ''not-a-url'')]"
    "length urls_two = 2"
    by (simp_all add: urls_two_def)
  have c: "created_ms moment_ok = 7"
    by (simp add: moment_ok_def)
  show ?thesis
    unfolding createJob_def generateJobId_moment_ok t system_two_def job_two_def
    by (simp add: t u c Let_def)
qed

lemma system_two_explicit:
  "system_two =
     \<lparr>jobs = [(str ''copy_7_k3x9'', job_two)],
      task = \<lparr>batch_items =
                [item_file, \<lparr>it_url = str ''not-a-url'', it_index = 1, it_parsed = None\<rparr>],
              batch_target = str ''T1'', currentIndex = 0, workers = [AtLoopHead, AtLoopHead],
              results = [None, None]\<rparr>,
      settled = False, emitted = []\<rparr>"
  unfolding system_two_def batchCopy_start_two ..

lemma run_two:
  "getJob (jobs (run env_ok answers_fault (str ''copy_7_k3x9'') schedule_two system_two))
     (str ''copy_7_k3x9'') = Some job_two_end"
  unfolding system_two_explicit by code_simp


section \<open>A job that is complete with pending items\<close>

lemma createJob_nan:
  "createJob env_ok moment_ok urls_two (Some (str ''T1'')) None NaN [] =
     ([], Inr (str ''copy_7_k3x9'', system_nan))"
proof -
  have t: "or_else (Some (str ''T1'')) [] = str ''T1''" "str ''T1'' \<noteq> []"
    by (simp_all add: or_else_def str_def)
  have u: "enumerate 0 urls_two =
      [(0, str ''https://drive.google.com/file/d/AAAA/view''), (1, str ''not-a-url'')]"
    "length urls_two = 2"
    by (simp_all add: urls_two_def)
  have c: "created_ms moment_ok = 7"
    by (simp add: moment_ok_def)
  show ?thesis
    unfolding createJob_def generateJobId_moment_ok t system_nan_def job_two_def
    by (simp add: t u c Let_def)
qed

lemma system_nan_explicit:
  "system_nan =
     \<lparr>jobs = [(str ''copy_7_k3x9'', job_two)],
      task = \<lparr>batch_items =
                [item_file, \<lparr>it_url = str ''not-a-url'', it_index = 1, it_parsed = None\<rparr>],
              batch_target = str ''T1'', currentIndex = 0, workers = [],
              results = [None, None]\<rparr>,
      settled = False, emitted = []\<rparr>"
  unfolding system_nan_def batchCopy_start_def parse_items_two
  by (simp add: safeConcurrency_cases urls_two_def)

lemma POST_body_nan:
  "POST env_ok moment_ok body_nan [] =
     ([], Started (str ''copy_7_k3x9'') (str ''processing'') (str ''T1''),
      jobs system_nan, Some system_nan)"
proof -
  have b: "body_urls body_nan = Some urls_two" "urls_two \<noteq> []"
    "body_targetFolderId body_nan = Some (str ''T1'')" "body_targetFolderName body_nan = None"
    "body_concurrency body_nan = Some NaN"
    by (simp_all add: body_nan_def body_two_def urls_two_def)
  have s: "Math_max MIN_CONCURRENCY NaN = NaN"
    by (simp add: MIN_CONCURRENCY_def)
  have g: "getJob (jobs system_nan) (str ''copy_7_k3x9'') = Some job_two"
    "job_targetFolderId job_two = str ''T1''"
    by (simp_all add: getJob_def system_nan_def job_two_def)
  show ?thesis
    unfolding POST_def b by (simp add: b(2) s createJob_nan g Let_def)
qed


lemma run_nan:
  "getJob (jobs (run env_ok answers_fault (str ''copy_7_k3x9'') [Settle] system_nan))
     (str ''copy_7_k3x9'') = Some (job_two\<lparr>job_status := JobComplete\<rparr>)"
  unfolding system_nan_explicit by code_simp

text \<open>
  C1 fails on the code.  The handler accepts a request whose concurrency is no number:
  \<^verbatim>\<open>Math.max(1, Math.min("abc", 10))\<close> is \<^verbatim>\<open>NaN\<close>, and \<^verbatim>\<open>batchCopy\<close> clamps it to
  \<^verbatim>\<open>NaN\<close> again.  \<^verbatim>\<open>Array.from\<close> reads the length 0 from it and starts no worker,
  \<^verbatim>\<open>Promise.all\<close> of no promise resolves, and \<^verbatim>\<open>processJob\<close> marks the job as
  complete: \<^verbatim>\<open>completedItems\<close> is 0 of 2 and both items are pending.
\<close>

theorem complete_job_with_pending_items:
  "safeConcurrency NaN = NaN \<and>
   POST env_ok moment_ok body_nan [] =
     ([], Started (str ''copy_7_k3x9'') (str ''processing'') (str ''T1''),
      jobs system_nan, Some system_nan) \<and>
   workers (task system_nan) = [] \<and>
   getJob (jobs (run env_ok answers_fault (str ''copy_7_k3x9'') [Settle] system_nan))
     (str ''copy_7_k3x9'') = Some (job_two\<lparr>job_status := JobComplete\<rparr>) \<and>
   job_status (job_two\<lparr>job_status := JobComplete\<rparr>) = JobComplete \<and>
   completedItems (job_two\<lparr>job_status := JobComplete\<rparr>) = 0 \<and>
   totalItems (job_two\<lparr>job_status := JobComplete\<rparr>) = 2 \<and>
   map item_status (items (job_two\<lparr>job_status := JobComplete\<rparr>)) = [ItemPending, ItemPending]"
proof -
  have w: "workers (task system_nan) = []"
    unfolding system_nan_explicit by simp
  have j: "completedItems (job_two\<lparr>job_status := JobComplete\<rparr>) = 0"
    "totalItems (job_two\<lparr>job_status := JobComplete\<rparr>) = 2"
    "map item_status (items (job_two\<lparr>job_status := JobComplete\<rparr>)) = [ItemPending, ItemPending]"
    by (simp_all add: job_two_def)
  from safeConcurrency_cases(1) POST_body_nan w run_nan j show ?thesis by simp
qed

section \<open>The shape of the events of an item\<close>




section \<open>A job of a file and a folder\<close>

lemma parse_folder_FFF:
  "parseGoogleDriveUrl (str ''https://drive.google.com/drive/folders/FFF'') =
     Some \<lparr>parsed_id = str ''FFF'', parsed_type = Folder\<rparr>"
proof -
  have e: "str ''https://drive.google.com/drive/folders/FFF'' =
           str ''https://drive.google.com/drive/folders/'' @ str ''FFF''"
    by (simp add: str_def)
  show ?thesis
    unfolding e by (rule shape_folder) (simp_all add: str_def isIdChar_def)
qed

lemma parse_items_pair:
  "parse_items urls_pair = [item_file, item_folder\<lparr>it_index := 1\<rparr>]"
  by (simp add: parse_items_def urls_pair_def item_file_def item_folder_def parse_folder_FFF
      parse_file_AAAA)

lemma batchCopy_start_pair:
  "batchCopy_start urls_pair (str ''T1'') (Num 2) =
     \<lparr>batch_items = [item_file, item_folder\<lparr>it_index := 1\<rparr>],
      batch_target = str ''T1'', currentIndex = 0, workers = [AtLoopHead, AtLoopHead],
      results = [None, None]\<rparr>"
proof -
  have "ToLength (Math_min (safeConcurrency (Num 2))
      (Num (real (length (parse_items urls_pair))))) = 2"
    by (simp add: safeConcurrency_Num parse_items_pair)
  then show ?thesis
    unfolding batchCopy_start_def Let_def parse_items_pair
    by (simp add: urls_pair_def numeral_2_eq_2)
qed

lemma createJob_pair:
  "createJob env_ok moment_ok urls_pair (Some (str ''T1'')) None (Num 2) [] =
     ([], Inr (str ''copy_7_k3x9'', system_pair))"
proof -
  have t: "or_else (Some (str ''T1'')) [] = str ''T1''" "str ''T1'' \<noteq> []"
    by (simp_all add: or_else_def str_def)
  have u: "enumerate 0 urls_pair =
      [(0, str ''https://drive.google.com/file/d/AAAA/view''),
       (1, str ''https://drive.google.com/drive/folders/FFF'')]"
    "length urls_pair = 2"
    by (simp_all add: urls_pair_def)
  have c: "created_ms moment_ok = 7"
    by (simp add: moment_ok_def)
  show ?thesis
    unfolding createJob_def generateJobId_moment_ok t system_pair_def job_pair_def
    by (simp add: t u c Let_def)
qed

lemma system_pair_explicit:
  "system_pair =
     \<lparr>jobs = [(str ''copy_7_k3x9'', job_pair)],
      task = \<lparr>batch_items = [item_file, item_folder\<lparr>it_index := 1\<rparr>],
              batch_target = str ''T1'', currentIndex = 0, workers = [AtLoopHead, AtLoopHead],
              results = [None, None]\<rparr>,
      settled = False, emitted = []\<rparr>"
  unfolding system_pair_def batchCopy_start_pair ..

lemma run_pair:
  "proj 0 (emitted (run env_ok answers_pair (str ''copy_7_k3x9'') schedule_pair system_pair)) =
     events_file_fault"
  "proj 1 (emitted (run env_ok answers_pair (str ''copy_7_k3x9'') schedule_pair system_pair)) =
     events_folder_ok"
  "workers (task (run env_ok answers_pair (str ''copy_7_k3x9'') schedule_pair system_pair)) =
     [Returned, Returned]"
  "currentIndex (task (run env_ok answers_pair (str ''copy_7_k3x9'') schedule_pair system_pair)) = 2"
  "results (task (run env_ok answers_pair (str ''copy_7_k3x9'') schedule_pair system_pair)) =
     [Some \<lparr>res_url = str ''https://drive.google.com/file/d/AAAA/view'', res_success = False,
             res_id = None, res_name = None, res_error = Some (str ''Failed to copy file'')\<rparr>,
      Some \<lparr>res_url = str ''https://drive.google.com/drive/folders/FFF'', res_success = True,
             res_id = Some (str ''N0''), res_name = Some (str ''docs''), res_error = None\<rparr>]"
  unfolding system_pair_explicit by code_simp+

lemma item_events_pair:
  "item_events env_ok answers_pair (str ''T1'') (parse_items urls_pair) 0 = events_file_fault"
  "item_events env_ok answers_pair (str ''T1'') (parse_items urls_pair) 1 = events_folder_ok"
  unfolding parse_items_pair by code_simp+


section \<open>The progress events of an item\<close>



lemma finished_pair:
  "finished (task (run env_ok answers_pair (str ''copy_7_k3x9'') schedule_pair system_pair)) 0"
  "finished (task (run env_ok answers_pair (str ''copy_7_k3x9'') schedule_pair system_pair)) 1"
  by (simp_all add: finished_def in_body_def run_pair(3,4))

lemma batch_target_system_pair: "batch_target (task system_pair) = str ''T1''"
  unfolding system_pair_explicit by simp



section \<open>A fault in one item\<close>

lemma processItem_body_fault:
  assumes "processItem_try e r tgt item = (fx, evs, Inl err)"
  shows "processItem_body e r tgt item =
     (fx,
      evs @ [\<lparr>ev_index = it_index item, ev_status = ItemError, ev_progress = 0,
              ev_message = str ''Error: '' @ error_message err\<rparr>],
      \<lparr>res_url = it_url item, res_success = False, res_id = None, res_name = None,
       res_error = Some (error_message err)\<rparr>)"
  using assms by (simp add: processItem_body_def Let_def progress_event_def)

lemma processItem_try_AppError:
  assumes "processItem_try e r tgt item = (fx, evs, Inl err)"
  shows "err = AppError (error_message err)"
  using processItem_try_shape [OF assms] by auto

lemma onProgress_job_status:
  assumes "map_of (onProgress_job jobId ev js) jobId = Some job'"
  shows "\<exists>job. map_of js jobId = Some job \<and>
     (job_status job' = job_status job \<or> job_status job' = JobComplete)"
proof (cases "map_of js jobId")
  case None
  from onProgress_job_absent [OF this, of ev] assms show ?thesis by simp
next
  case (Some job)
  show ?thesis
  proof (cases "ev_index ev < length (items job)")
    case True
    from onProgress_job_present [OF Some True] assms
    have "job_status job' = job_status job \<or> job_status job' = JobComplete"
      by (auto split: if_splits)
    with Some show ?thesis by simp
  next
    case False
    with Some have "onProgress_job jobId ev js = js"
      by (simp add: onProgress_job_def updateJobItem_def)
    with assms Some show ?thesis by simp
  qed
qed

lemma worker_step_status:
  assumes "map_of (jobs (worker_step e answers jobId w s)) jobId = Some job'"
  shows "\<exists>job. map_of (jobs s) jobId = Some job \<and>
     (job_status job' = job_status job \<or> job_status job' = JobComplete)"
proof (cases rule: worker_step_cases [of w s])
  case idle
  with assms show ?thesis by (simp add: worker_step_idle)
next
  case claim
  from assms show ?thesis unfolding worker_step_claim [OF claim] by simp
next
  case return
  from assms show ?thesis unfolding worker_step_return [OF return] by simp
next
  case (emit i ev ev' evs res)
  from assms have "map_of (onProgress_job jobId ev (jobs s)) jobId = Some job'"
    unfolding worker_step_emit [OF emit] by simp
  then show ?thesis by (rule onProgress_job_status)
next
  case (last i ev res)
  from assms have "map_of (onProgress_job jobId ev (jobs s)) jobId = Some job'"
    unfolding worker_step_last [OF last] by simp
  then show ?thesis by (rule onProgress_job_status)
next
  case (empty i res)
  from assms show ?thesis unfolding worker_step_empty [OF empty] by simp
qed

lemma settle_step_status:
  assumes "map_of (jobs (settle_step jobId s)) jobId = Some job'"
  shows "\<exists>job. map_of (jobs s) jobId = Some job \<and>
     (job_status job' = job_status job \<or> job_status job' = JobComplete)"
proof (cases "\<not> settled s \<and> list_all (\<lambda>w. w = Returned) (workers (task s))")
  case False
  then have "settle_step jobId s = s" unfolding settle_step_def by (rule if_not_P)
  with assms show ?thesis by simp
next
  case True
  then have "settle_step jobId s =
      s\<lparr>jobs := processJob_continue jobId (Inr ()) (jobs s), settled := True\<rparr>"
    by (simp add: settle_step_def)
  with assms have "map_of (processJob_continue jobId (Inr ()) (jobs s)) jobId = Some job'"
    by simp
  then show ?thesis
    by (cases "map_of (jobs s) jobId") (auto simp: processJob_continue_def update_conv')
qed

lemma step_status:
  assumes "map_of (jobs (step e answers jobId a s)) jobId = Some job'"
  shows "\<exists>job. map_of (jobs s) jobId = Some job \<and>
     (job_status job' = job_status job \<or> job_status job' = JobComplete)"
proof (cases a)
  case (Worker w)
  with assms show ?thesis using worker_step_status [of e answers jobId w s job'] by simp
next
  case Settle
  with assms show ?thesis using settle_step_status [of jobId s job'] by simp
next
  case (Delete j)
  with assms have "map_of (snd (deleteJob j (jobs s))) jobId = Some job'" by simp
  from map_of_deleteJob_other [OF this] show ?thesis by simp
next
  case (ClearOld now maxAgeMs)
  with assms have "map_of (snd (clearOldJobs now maxAgeMs (jobs s))) jobId = Some job'" by simp
  from map_of_clearOldJobs [OF this] show ?thesis by simp
qed

lemma run_status:
  assumes "map_of (jobs (run e answers jobId acts s)) jobId = Some job'"
  shows "\<exists>job. map_of (jobs s) jobId = Some job \<and>
     (job_status job' = job_status job \<or> job_status job' = JobComplete)"
  using assms
proof (induction acts arbitrary: s)
  case Nil
  then show ?case by simp
next
  case (Cons a acts)
  from Cons.prems have "map_of (jobs (run e answers jobId acts (step e answers jobId a s))) jobId =
      Some job'"
    by simp
  from Cons.IH [OF this] obtain job1 where
    1: "map_of (jobs (step e answers jobId a s)) jobId = Some job1"
    and 2: "job_status job' = job_status job1 \<or> job_status job' = JobComplete"
    by blast
  from step_status [OF 1] obtain job where
    3: "map_of (jobs s) jobId = Some job"
    and 4: "job_status job1 = job_status job \<or> job_status job1 = JobComplete"
    by blast
  from 2 4 have "job_status job' = job_status job \<or> job_status job' = JobComplete" by auto
  with 3 show ?case by blast
qed

lemma run_never_error:
  assumes c: "createJob e m urls tf tn c js = (fx, Inr (jobId, s0))"
    and g: "getJob (jobs (run e answers jobId acts s0)) jobId = Some job'"
  shows "job_status job' \<noteq> JobError"
proof -
  from g have "map_of (jobs (run e answers jobId acts s0)) jobId = Some job'"
    by (simp add: getJob_def)
  from run_status [OF this] obtain job where
    j: "map_of (jobs s0) jobId = Some job"
    and s: "job_status job' = job_status job \<or> job_status job' = JobComplete"
    by blast
  from createJob_Inr [OF c] j have "job_status job = JobProcessing"
    by (auto simp: update_conv')
  with s show ?thesis by auto
qed

section \<open>The workers run to the end\<close>

lemma sum_list_map_update:
  "w < length ws \<Longrightarrow>
   sum_list (map f (ws[w := x])) + f (ws ! w) = sum_list (map f ws) + (f x :: nat)"
proof (induction ws arbitrary: w)
  case Nil
  then show ?case by simp
next
  case (Cons a ws)
  show ?case
  proof (cases w)
    case 0
    then show ?thesis by simp
  next
    case (Suc v)
    with Cons.prems have "v < length ws" by simp
    from Cons.IH [OF this] Suc show ?thesis by simp
  qed
qed

lemma remaining_worker_step:
  assumes w: "w < length (workers (task s))" and r: "workers (task s) ! w \<noteq> Returned"
  shows "remaining e answers (worker_step e answers jobId w s) < remaining e answers s"
proof (cases rule: worker_step_cases [of w s])
  case idle
  with w r show ?thesis by simp
next
  case claim
  let ?ci = "currentIndex (task s)"
  let ?len = "\<lambda>i. length (item_events e answers (batch_target (task s)) (batch_items (task s)) i) + 2"
  from sum_list_map_update [OF claim(1), of worker_weight
      "InBody ?ci (item_events e answers (batch_target (task s)) (batch_items (task s)) ?ci)
         (item_result e answers (batch_target (task s)) (batch_items (task s)) ?ci)"]
  have 1: "sum_list (map worker_weight ((workers (task s))
        [w := InBody ?ci (item_events e answers (batch_target (task s)) (batch_items (task s)) ?ci)
           (item_result e answers (batch_target (task s)) (batch_items (task s)) ?ci)])) + 1 =
      sum_list (map worker_weight (workers (task s))) + ?len ?ci"
    using claim(2) by simp
  from claim(3) have 2: "[?ci ..< length (batch_items (task s))] =
      ?ci # [?ci + 1 ..< length (batch_items (task s))]"
    by (simp add: upt_conv_Cons)
  have 3: "sum_list (map ?len [?ci ..< length (batch_items (task s))]) =
      ?len ?ci + sum_list (map ?len [?ci + 1 ..< length (batch_items (task s))])"
    unfolding 2 by simp
  show ?thesis
    unfolding worker_step_claim [OF claim] remaining_def using 1 3 by simp
next
  case return
  from sum_list_map_update [OF return(1), of worker_weight Returned]
  have "sum_list (map worker_weight ((workers (task s))[w := Returned])) + 1 =
      sum_list (map worker_weight (workers (task s)))"
    using return(2) by simp
  then show ?thesis
    unfolding worker_step_return [OF return] remaining_def by simp
next
  case (emit i ev ev' evs res)
  from sum_list_map_update [OF emit(1), of worker_weight "InBody i (ev' # evs) res"]
  have "sum_list (map worker_weight ((workers (task s))[w := InBody i (ev' # evs) res])) + 1 =
      sum_list (map worker_weight (workers (task s)))"
    using emit(2) by simp
  then show ?thesis
    unfolding worker_step_emit [OF emit] remaining_def by simp
next
  case (last i ev res)
  from sum_list_map_update [OF last(1), of worker_weight AtLoopHead]
  have "sum_list (map worker_weight ((workers (task s))[w := AtLoopHead])) + 2 =
      sum_list (map worker_weight (workers (task s)))"
    using last(2) by simp
  then show ?thesis
    unfolding worker_step_last [OF last] remaining_def by simp
next
  case (empty i res)
  from sum_list_map_update [OF empty(1), of worker_weight AtLoopHead]
  have "sum_list (map worker_weight ((workers (task s))[w := AtLoopHead])) + 1 =
      sum_list (map worker_weight (workers (task s)))"
    using empty(2) by simp
  then show ?thesis
    unfolding worker_step_empty [OF empty] remaining_def by simp
qed

lemma finishing_schedule:
  "\<exists>acts. list_all task_action acts \<and>
     (\<forall>x \<in> set (workers (task (run e answers jobId acts s))). x = Returned)"
proof (induction "remaining e answers s" arbitrary: s rule: less_induct)
  case less
  show ?case
  proof (cases "\<forall>x \<in> set (workers (task s)). x = Returned")
    case True
    then have "list_all task_action [] \<and>
        (\<forall>x \<in> set (workers (task (run e answers jobId [] s))). x = Returned)"
      by simp
    then show ?thesis by (rule exI)
  next
    case False
    then obtain w where w: "w < length (workers (task s))" "workers (task s) ! w \<noteq> Returned"
      by (auto simp: in_set_conv_nth)
    from less [OF remaining_worker_step [OF w, of e answers jobId]] obtain acts where
      a: "list_all task_action acts"
      "\<forall>x \<in> set (workers (task (run e answers jobId acts (worker_step e answers jobId w s)))).
         x = Returned"
      by blast
    then have "list_all task_action (Worker w # acts) \<and>
        (\<forall>x \<in> set (workers (task (run e answers jobId (Worker w # acts) s))). x = Returned)"
      by simp
    then show ?thesis by (rule exI)
  qed
qed

lemma run_append:
  "run e answers jobId (acts @ rest) s = run e answers jobId rest (run e answers jobId acts s)"
  by (induction acts arbitrary: s) simp_all

lemma staffed_run:
  assumes "task_inv e answers tgt its s" "staffed s"
  shows "staffed (run e answers jobId acts s)"
  using assms
proof (induction acts arbitrary: s)
  case Nil
  then show ?case by simp
next
  case (Cons a acts)
  from Cons.prems have "task_inv e answers tgt its (step e answers jobId a s)"
    "staffed (step e answers jobId a s)"
    by (simp_all add: task_inv_step staffed_step)
  from Cons.IH [OF this] show ?case by simp
qed

lemma run_to_the_end:
  assumes c: "createJob e m urls tf tn c js = (fx, Inr (jobId, s0))" and n: "c \<noteq> NaN"
  shows "\<exists>rest. list_all task_action rest \<and>
     (\<forall>i < length urls. finished (task (run e answers jobId (acts @ rest) s0)) i)"
proof -
  let ?s = "run e answers jobId acts s0"
  from finishing_schedule [of e answers jobId ?s] obtain rest where
    m: "list_all task_action rest"
    and r: "\<forall>x \<in> set (workers (task (run e answers jobId rest ?s))). x = Returned"
    by blast
  have eq: "run e answers jobId (acts @ rest) s0 = run e answers jobId rest ?s"
    by (rule run_append)
  note tinv = run_task_inv [OF c, of answers "acts @ rest"]
  from createJob_invariants [OF c, of answers]
  have t0: "task_inv e answers (batch_target (task s0)) (parse_items urls) s0" by simp
  have st: "staffed (run e answers jobId (acts @ rest) s0)"
    by (rule staffed_run [OF t0 createJob_staffed [OF c n]])
  have "finished (task (run e answers jobId (acts @ rest) s0)) i" if "i < length urls" for i
    using all_returned_finished [OF tinv st] r that unfolding eq
    by (simp add: length_parse_items)
  with m have "list_all task_action rest \<and>
     (\<forall>i < length urls. finished (task (run e answers jobId (acts @ rest) s0)) i)"
    by simp
  then show ?thesis by (rule exI)
qed

section \<open>Isolation of a fault\<close>

text \<open>
  C2.  When the \<^verbatim>\<open>try\<close> block of the body of the loop throws for an item, the handler
  emits the error event of that item with the message of the error and stores the
  result with that message; the error is an \<^verbatim>\<open>AppError\<close>, so the message is its own.
  For a job made by \<^verbatim>\<open>createJob\<close> and any sequence of steps: a worker has returned
  only when every item was claimed; the job is never marked as error; the result stored
  for a finished item is the result of the body of the loop on that item and on the
  answers of the Drive for that item alone; and, unless the concurrency is \<^verbatim>\<open>NaN\<close>,
  the workers can always go on until every item is finished.
\<close>

theorem item_fault_isolated:
  "(processItem_try e r tgt item = (fx, evs, Inl err) \<longrightarrow>
      err = AppError (error_message err) \<and>
      processItem_body e r tgt item =
        (fx,
         evs @ [\<lparr>ev_index = it_index item, ev_status = ItemError, ev_progress = 0,
                 ev_message = str ''Error: '' @ error_message err\<rparr>],
         \<lparr>res_url = it_url item, res_success = False, res_id = None, res_name = None,
          res_error = Some (error_message err)\<rparr>)) \<and>
   (createJob e m urls tf tn c js = (fx0, Inr (jobId, s0)) \<longrightarrow>
      (Returned \<in> set (workers (task (run e answers jobId acts s0))) \<longrightarrow>
         currentIndex (task (run e answers jobId acts s0)) = length urls) \<and>
      (\<forall>job. getJob (jobs (run e answers jobId acts s0)) jobId = Some job \<longrightarrow>
         job_status job \<noteq> JobError) \<and>
      (\<forall>i. finished (task (run e answers jobId acts s0)) i \<longrightarrow>
         results (task (run e answers jobId acts s0)) ! i =
           Some (snd (snd (processItem_body e (answers i) (batch_target (task s0))
                   (parse_items urls ! i))))) \<and>
      (c \<noteq> NaN \<longrightarrow>
         (\<exists>rest. list_all task_action rest \<and>
            (\<forall>i < length urls. finished (task (run e answers jobId (acts @ rest) s0)) i))))"
proof (intro conjI impI allI)
  assume t: "processItem_try e r tgt item = (fx, evs, Inl err)"
  show "err = AppError (error_message err)"
    by (rule processItem_try_AppError [OF t])
  show "processItem_body e r tgt item =
        (fx,
         evs @ [\<lparr>ev_index = it_index item, ev_status = ItemError, ev_progress = 0,
                 ev_message = str ''Error: '' @ error_message err\<rparr>],
         \<lparr>res_url = it_url item, res_success = False, res_id = None, res_name = None,
          res_error = Some (error_message err)\<rparr>)"
    by (rule processItem_body_fault [OF t])
next
  assume c: "createJob e m urls tf tn c js = (fx0, Inr (jobId, s0))"
  note tinv = run_task_inv [OF c, of answers acts]
  show "currentIndex (task (run e answers jobId acts s0)) = length urls"
    if "Returned \<in> set (workers (task (run e answers jobId acts s0)))"
    using task_invD(7) [OF tinv that] by (simp add: length_parse_items)
  show "job_status job \<noteq> JobError"
    if "getJob (jobs (run e answers jobId acts s0)) jobId = Some job" for job
    by (rule run_never_error [OF c that])
  show "results (task (run e answers jobId acts s0)) ! i =
           Some (snd (snd (processItem_body e (answers i) (batch_target (task s0))
                   (parse_items urls ! i))))"
    if "finished (task (run e answers jobId acts s0)) i" for i
    using task_invD(12) [OF tinv that] by (simp add: item_result_def)
  show "\<exists>rest. list_all task_action rest \<and>
            (\<forall>i < length urls. finished (task (run e answers jobId (acts @ rest) s0)) i)"
    if "c \<noteq> NaN"
    by (rule run_to_the_end [OF c that])
qed

lemma processItem_file_copy_fault:
  "processItem_try env_ok file_copy_fault (str ''T1'') item_file =
     ([], butlast events_file_fault, Inl (AppError (str ''Failed to copy file'')))"
  "processItem_body env_ok file_copy_fault (str ''T1'') item_file =
     ([], events_file_fault,
      \<lparr>res_url = str ''https://drive.google.com/file/d/AAAA/view'', res_success = False,
       res_id = None, res_name = None, res_error = Some (str ''Failed to copy file'')\<rparr>)"
  by code_simp+

lemma run_pair_job:
  "getJob (jobs (run env_ok answers_pair (str ''copy_7_k3x9'') schedule_pair system_pair))
     (str ''copy_7_k3x9'') = Some job_pair_end"
  unfolding system_pair_explicit by code_simp

theorem item_fault_isolated_witness:
  "processItem_try env_ok file_copy_fault (str ''T1'') item_file =
     ([], butlast events_file_fault, Inl (AppError (str ''Failed to copy file''))) \<and>
   processItem_body env_ok file_copy_fault (str ''T1'') item_file =
     ([], events_file_fault,
      \<lparr>res_url = str ''https://drive.google.com/file/d/AAAA/view'', res_success = False,
       res_id = None, res_name = None, res_error = Some (str ''Failed to copy file'')\<rparr>) \<and>
   createJob env_ok moment_ok urls_pair (Some (str ''T1'')) None (Num 2) [] =
     ([], Inr (str ''copy_7_k3x9'', system_pair)) \<and>
   Num 2 \<noteq> NaN \<and>
   Returned \<in> set (workers (task
     (run env_ok answers_pair (str ''copy_7_k3x9'') schedule_pair system_pair))) \<and>
   currentIndex (task (run env_ok answers_pair (str ''copy_7_k3x9'') schedule_pair system_pair)) =
     length urls_pair \<and>
   getJob (jobs (run env_ok answers_pair (str ''copy_7_k3x9'') schedule_pair system_pair))
     (str ''copy_7_k3x9'') = Some job_pair_end \<and>
   job_status job_pair_end = JobComplete \<and>
   map item_status (items job_pair_end) = [ItemError, ItemSuccess] \<and>
   finished (task (run env_ok answers_pair (str ''copy_7_k3x9'') schedule_pair system_pair)) 0 \<and>
   finished (task (run env_ok answers_pair (str ''copy_7_k3x9'') schedule_pair system_pair)) 1 \<and>
   results (task (run env_ok answers_pair (str ''copy_7_k3x9'') schedule_pair system_pair)) ! 0 =
     Some (snd (snd (processItem_body env_ok (answers_pair 0) (str ''T1'')
             (parse_items urls_pair ! 0)))) \<and>
   results (task (run env_ok answers_pair (str ''copy_7_k3x9'') schedule_pair system_pair)) ! 1 =
     Some \<lparr>res_url = str ''https://drive.google.com/drive/folders/FFF'', res_success = True,
           res_id = Some (str ''N0''), res_name = Some (str ''docs''), res_error = None\<rparr>"
proof -
  let ?s = "run env_ok answers_pair (str ''copy_7_k3x9'') schedule_pair system_pair"
  have j: "job_status job_pair_end = JobComplete"
    "map item_status (items job_pair_end) = [ItemError, ItemSuccess]"
    by (simp_all add: job_pair_end_def)
  have r: "Returned \<in> set (workers (task ?s))"
    by (simp add: run_pair(3))
  have n: "Num 2 \<noteq> NaN" by simp
  note t = item_fault_isolated
    [of env_ok file_copy_fault "str ''T1''" item_file "[]" "butlast events_file_fault"
      "AppError (str ''Failed to copy file'')" moment_ok urls_pair "Some (str ''T1'')" None
      "Num 2" "[]" "[]" "str ''copy_7_k3x9''" system_pair answers_pair schedule_pair]
  from t createJob_pair r have 1: "currentIndex (task ?s) = length urls_pair"
    by blast
  from t createJob_pair finished_pair(1)
  have 2: "results (task ?s) ! 0 =
     Some (snd (snd (processItem_body env_ok (answers_pair 0) (str ''T1'')
             (parse_items urls_pair ! 0))))"
    unfolding batch_target_system_pair by blast
  have 3: "results (task ?s) ! 1 =
     Some \<lparr>res_url = str ''https://drive.google.com/drive/folders/FFF'', res_success = True,
           res_id = Some (str ''N0''), res_name = Some (str ''docs''), res_error = None\<rparr>"
    by (simp add: run_pair(5))
  from processItem_file_copy_fault createJob_pair n r 1 run_pair_job j finished_pair 2 3
  show ?thesis by (intro conjI)
qed

end
